theory Spec2Isabelle
  imports Main
begin

section \<open>JavaScript strings\<close>

text \<open>
  A JavaScript string is modelled as a \<open>string\<close> (a list of characters); the code units are
  restricted to eight bits. The functions below are the string methods the translator calls,
  with the behaviour the language gives them for string arguments.
\<close>

abbreviation LF :: char where "LF \<equiv> CHR 0x0A"

abbreviation CR :: char where "CR \<equiv> CHR 0x0D"

abbreviation DQ :: char where "DQ \<equiv> CHR 0x22"

text \<open>
  \<open>cut_at sep s\<close> finds the first (leftmost) occurrence of \<open>sep\<close> in \<open>s\<close> and returns the text
  before it and the text after it; it is what \<open>indexOf\<close> computes.
\<close>

fun cut_at :: "string \<Rightarrow> string \<Rightarrow> (string \<times> string) option" where
  "cut_at sep [] = (if sep = [] then Some ([], []) else None)"
| "cut_at sep (x # xs) =
     (if take (length sep) (x # xs) = sep then Some ([], drop (length sep) (x # xs))
      else map_option (\<lambda>(b, a). (x # b, a)) (cut_at sep xs))"

text \<open>\<open>s.includes(sep)\<close>\<close>

definition str_includes :: "string \<Rightarrow> string \<Rightarrow> bool" where
  "str_includes s sep = (cut_at sep s \<noteq> None)"

lemma cut_at_decomp: "cut_at sep s = Some (b, a) \<Longrightarrow> s = b @ sep @ a"
proof (induction s arbitrary: b)
  case Nil
  then show ?case by (simp split: if_splits)
next
  case (Cons x xs)
  show ?case
  proof (cases "take (length sep) (x # xs) = sep")
    case True
    with Cons.prems have "b = []" "a = drop (length sep) (x # xs)" by simp_all
    with True show ?thesis by (metis append_Nil append_take_drop_id)
  next
    case False
    with Cons.prems obtain b' where "cut_at sep xs = Some (b', a)" "b = x # b'"
      by auto
    with Cons.IH show ?thesis by simp
  qed
qed

text \<open>
  \<open>s.split(sep)\<close> with a string separator and no limit: the pieces between the successive
  occurrences of the separator, found from the left; an empty separator splits into single
  code units.
\<close>

function js_split :: "string \<Rightarrow> string \<Rightarrow> string list" where
  "js_split s sep =
     (if sep = [] then map (\<lambda>c. [c]) s
      else case cut_at sep s of
             None \<Rightarrow> [s]
           | Some (b, a) \<Rightarrow> b # js_split a sep)"
  by pat_completeness auto
termination
proof (relation "measure (\<lambda>(s, sep). length s)")
  show "wf (measure (\<lambda>(s, sep). length s))" by simp
next
  fix s sep :: string and x2 b a
  assume "sep \<noteq> []" and "cut_at sep s = Some x2" and "(b, a) = x2"
  then have "s = b @ sep @ a" by (simp add: cut_at_decomp)
  with \<open>sep \<noteq> []\<close> have "length a < length s" by (cases sep) simp_all
  then show "((a, sep), (s, sep)) \<in> measure (\<lambda>(s, sep). length s)" by simp
qed

declare js_split.simps [simp del]

text \<open>Reading an array element: \<open>xs[i]\<close> is \<open>undefined\<close> (here \<open>None\<close>) out of range.\<close>

definition at_index :: "'a list \<Rightarrow> nat \<Rightarrow> 'a option" where
  "at_index xs i = (if i < length xs then Some (xs ! i) else None)"

text \<open>
  \<open>s.replace(pat, rep)\<close> with a string pattern replaces the first occurrence only. The
  replacement texts the translator passes contain no dollar sign, so they are inserted as
  they are.
\<close>

definition replace_str :: "string \<Rightarrow> string \<Rightarrow> string \<Rightarrow> string" where
  "replace_str s pat rep = (case cut_at pat s of None \<Rightarrow> s | Some (b, a) \<Rightarrow> b @ rep @ a)"

text \<open>\<open>s.trim()\<close>: white space and line terminators are stripped from both ends.\<close>

definition js_space :: "char \<Rightarrow> bool" where
  "js_space c = (c \<in> set [CHR 0x09, LF, CHR 0x0B, CHR 0x0C, CR, CHR '' '', CHR 0xA0])"

definition trim :: "string \<Rightarrow> string" where
  "trim s = rev (dropWhile js_space (rev (dropWhile js_space s)))"

text \<open>
  \<open>toUpperCase\<close> on the letters a to z. It is used to compare tag names and, under the \<open>i\<close>
  flag, input characters with the characters of a pattern, which are all below 128; the
  language never canonicalises a character from 128 on to one below 128, so leaving those
  characters alone gives the same comparisons.
\<close>

definition to_upper :: "char \<Rightarrow> char" where
  "to_upper c =
     (let k = (of_char c :: nat) in if 97 \<le> k \<and> k \<le> 122 then char_of (k - 32) else c)"

text \<open>The same function on the bits of the character: a letter a to z loses bit 5.\<close>

lemma to_upper_bits [code]:
  "to_upper (Char b0 b1 b2 b3 b4 b5 b6 b7) =
     (if b5 \<and> b6 \<and> \<not> b7 \<and> (b0 \<or> b1 \<or> b2 \<or> b3 \<or> b4) \<and> \<not> (b3 \<and> b4 \<and> (b2 \<or> b0 \<and> b1))
      then Char b0 b1 b2 b3 b4 False b6 b7 else Char b0 b1 b2 b3 b4 b5 b6 b7)"
  by (cases b0; cases b1; cases b2; cases b3; cases b4; cases b5; cases b6; cases b7;
      simp add: to_upper_def char_of_def bit_Suc_0_iff)

text \<open>
  \<open>toLowerCase\<close> on the letters A to Z, used to compare node names with tag names; node
  names are ASCII.
\<close>

definition to_lower :: "char \<Rightarrow> char" where
  "to_lower c =
     (let k = (of_char c :: nat) in if 65 \<le> k \<and> k \<le> 90 then char_of (k + 32) else c)"

text \<open>The same function on the bits of the character: a letter A to Z gains bit 5.\<close>

lemma to_lower_bits [code]:
  "to_lower (Char b0 b1 b2 b3 b4 b5 b6 b7) =
     (if \<not> b5 \<and> b6 \<and> \<not> b7 \<and> (b0 \<or> b1 \<or> b2 \<or> b3 \<or> b4) \<and> \<not> (b3 \<and> b4 \<and> (b2 \<or> b0 \<and> b1))
      then Char b0 b1 b2 b3 b4 True b6 b7 else Char b0 b1 b2 b3 b4 b5 b6 b7)"
  by (cases b0; cases b1; cases b2; cases b3; cases b4; cases b5; cases b6; cases b7;
      simp add: to_lower_def char_of_def bit_Suc_0_iff)

section \<open>Regular expressions\<close>

text \<open>
  The regular expressions of \<open>getPostContent\<close> are written as terms of this type, one
  constructor per construct the source uses. Matching follows the backtracking semantics of
  the language: \<open>rmatch\<close> lists, in the order in which backtracking tries them, every way
  the expression matches a prefix of the input, each as the remaining input and the captures.
  The first element is the match the engine reports at that position.
\<close>

datatype regex =
    Str string
  | Dot
  | Digit
  | NoneOf "char list"
  | Seq regex regex
  | Alt regex regex
  | Opt regex
  | Star regex
  | Plus regex
  | LazyStar regex
  | LazyPlus regex
  | Times nat regex
  | Cap nat regex

type_synonym captures = "nat \<Rightarrow> string option"

text \<open>Under the \<open>i\<close> flag characters are compared after canonicalisation (upper case).\<close>

definition canon :: "bool \<Rightarrow> char \<Rightarrow> char" where
  "canon ic c = (if ic then to_upper c else c)"

text \<open>\<open>\d\<close> is a decimal digit; the dot matches everything but a line terminator.\<close>

definition is_digit :: "char \<Rightarrow> bool" where
  "is_digit c = (c \<in> set ''0123456789'')"

definition line_terminator :: "char \<Rightarrow> bool" where
  "line_terminator c = (c = LF \<or> c = CR)"

fun groups :: "regex \<Rightarrow> nat list" where
  "groups (Seq a b) = groups a @ groups b"
| "groups (Alt a b) = groups a @ groups b"
| "groups (Opt a) = groups a"
| "groups (Star a) = groups a"
| "groups (Plus a) = groups a"
| "groups (LazyStar a) = groups a"
| "groups (LazyPlus a) = groups a"
| "groups (Times n a) = groups a"
| "groups (Cap n a) = n # groups a"
| "groups r = []"

text \<open>Every iteration of a quantified expression starts with the groups inside it unset.\<close>

definition clear :: "nat list \<Rightarrow> captures \<Rightarrow> captures" where
  "clear ns c = (\<lambda>n. if n \<in> set ns then None else c n)"

text \<open>The measure under which the matcher terminates, with the length of the input.\<close>

fun weight :: "regex \<Rightarrow> nat" where
  "weight (Seq a b) = Suc (weight a + weight b)"
| "weight (Alt a b) = Suc (weight a + weight b)"
| "weight (Opt a) = Suc (weight a)"
| "weight (Star a) = Suc (weight a)"
| "weight (Plus a) = Suc (Suc (weight a))"
| "weight (LazyStar a) = Suc (weight a)"
| "weight (LazyPlus a) = Suc (Suc (weight a))"
| "weight (Times n a) = Suc n * Suc (weight a)"
| "weight (Cap n a) = Suc (weight a)"
| "weight r = 0"

text \<open>
  \<open>literal ic p s\<close>: the input \<open>s\<close> starts with the characters \<open>p\<close>; the result is the
  input after them.
\<close>

fun literal :: "bool \<Rightarrow> string \<Rightarrow> string \<Rightarrow> string option" where
  "literal ic [] s = Some s"
| "literal ic (p # ps) [] = None"
| "literal ic (p # ps) (x # xs) = (if canon ic x = canon ic p then literal ic ps xs else None)"

text \<open>
  The matcher. A greedy quantifier tries one more iteration before it goes on, a lazy one
  goes on first; an iteration that consumes nothing is rejected once the minimum is reached.
\<close>

function rmatch :: "bool \<Rightarrow> regex \<Rightarrow> string \<Rightarrow> captures \<Rightarrow> (string \<times> captures) list" where
  "rmatch ic (Str p) s c = (case literal ic p s of None \<Rightarrow> [] | Some s' \<Rightarrow> [(s', c)])"
| "rmatch ic Dot s c =
     (case s of [] \<Rightarrow> [] | x # xs \<Rightarrow> if line_terminator x then [] else [(xs, c)])"
| "rmatch ic Digit s c =
     (case s of [] \<Rightarrow> [] | x # xs \<Rightarrow> if is_digit x then [(xs, c)] else [])"
| "rmatch ic (NoneOf cs) s c =
     (case s of [] \<Rightarrow> []
      | x # xs \<Rightarrow> if canon ic x \<in> set (map (canon ic) cs) then [] else [(xs, c)])"
| "rmatch ic (Seq a b) s c =
     concat (map (\<lambda>(s', c'). rmatch ic b s' c') (rmatch ic a s c))"
| "rmatch ic (Alt a b) s c = rmatch ic a s c @ rmatch ic b s c"
| "rmatch ic (Opt a) s c =
     filter (\<lambda>(s', c'). length s' < length s) (rmatch ic a s (clear (groups a) c)) @ [(s, c)]"
| "rmatch ic (Star a) s c =
     concat (map (\<lambda>(s', c'). if length s' < length s then rmatch ic (Star a) s' c' else [])
               (rmatch ic a s (clear (groups a) c)))
     @ [(s, c)]"
| "rmatch ic (Plus a) s c =
     concat (map (\<lambda>(s', c'). rmatch ic (Star a) s' c') (rmatch ic a s (clear (groups a) c)))"
| "rmatch ic (LazyStar a) s c =
     (s, c) #
     concat (map (\<lambda>(s', c'). if length s' < length s then rmatch ic (LazyStar a) s' c' else [])
               (rmatch ic a s (clear (groups a) c)))"
| "rmatch ic (LazyPlus a) s c =
     concat (map (\<lambda>(s', c'). rmatch ic (LazyStar a) s' c') (rmatch ic a s (clear (groups a) c)))"
| "rmatch ic (Times 0 a) s c = [(s, c)]"
| "rmatch ic (Times (Suc n) a) s c =
     concat (map (\<lambda>(s', c'). rmatch ic (Times n a) s' c') (rmatch ic a s (clear (groups a) c)))"
| "rmatch ic (Cap n a) s c =
     map (\<lambda>(s', c'). (s', c'(n \<mapsto> take (length s - length s') s))) (rmatch ic a s c)"
  by pat_completeness auto
termination
  by (relation "measures [\<lambda>(ic, r, s, c). weight r, \<lambda>(ic, r, s, c). length s]") auto

declare rmatch.simps [simp del]

text \<open>
  \<open>rsearch\<close> is \<open>exec\<close> from the start of the input: the leftmost position at which the
  expression matches, with the text before it, the text after the match and the captures.
\<close>

fun rsearch :: "bool \<Rightarrow> regex \<Rightarrow> string \<Rightarrow> (string \<times> string \<times> captures) option" where
  "rsearch ic r [] =
     (case rmatch ic r [] Map.empty of [] \<Rightarrow> None | (s', c) # _ \<Rightarrow> Some ([], s', c))"
| "rsearch ic r (x # xs) =
     (case rmatch ic r (x # xs) Map.empty of
        [] \<Rightarrow> map_option (\<lambda>(b, a, c). (x # b, a, c)) (rsearch ic r xs)
      | (s', c) # _ \<Rightarrow> Some ([], s', c))"

text \<open>
  A replacement text: literal pieces and references \<open>$n\<close> to a group; a group that did not
  take part in the match gives the empty string.
\<close>

datatype piece = Txt string | Grp nat

fun expand :: "piece list \<Rightarrow> captures \<Rightarrow> string" where
  "expand [] c = []"
| "expand (Txt t # ps) c = t @ expand ps c"
| "expand (Grp n # ps) c = (case c n of None \<Rightarrow> [] | Some g \<Rightarrow> g) @ expand ps c"

text \<open>\<open>s.replace(re, tmpl)\<close> for an expression without the \<open>g\<close> flag: the first match only.\<close>

definition replace_re :: "string \<Rightarrow> bool \<Rightarrow> regex \<Rightarrow> piece list \<Rightarrow> string" where
  "replace_re s ic r tmpl =
     (case rsearch ic r s of None \<Rightarrow> s | Some (b, a, c) \<Rightarrow> b @ expand tmpl c @ a)"

text \<open>
  \<open>s.replace(re, tmpl)\<close> with the \<open>g\<close> flag: the matches are found from left to right,
  each search starting where the previous match ended (one code unit further after an empty
  match), and the text between the matches is kept.
\<close>

function replace_all_re :: "string \<Rightarrow> bool \<Rightarrow> regex \<Rightarrow> piece list \<Rightarrow> string" where
  "replace_all_re s ic r tmpl =
     (case rmatch ic r s Map.empty of
        [] \<Rightarrow> (case s of [] \<Rightarrow> [] | x # xs \<Rightarrow> x # replace_all_re xs ic r tmpl)
      | (s', c) # _ \<Rightarrow>
          expand tmpl c @
          (if length s' < length s then replace_all_re s' ic r tmpl
           else (case s of [] \<Rightarrow> [] | x # xs \<Rightarrow> x # replace_all_re xs ic r tmpl)))"
  by pat_completeness auto
termination
  by (relation "measure (\<lambda>(s, ic, r, tmpl). length s)") auto

declare replace_all_re.simps [simp del]

text \<open>A sequence and an alternation of several expressions.\<close>

fun seqs :: "regex list \<Rightarrow> regex" where
  "seqs [] = Str []"
| "seqs [r] = r"
| "seqs (r # rs) = Seq r (seqs rs)"

fun alts :: "regex list \<Rightarrow> regex" where
  "alts [] = Str []"
| "alts [r] = r"
| "alts (r # rs) = Alt r (alts rs)"

section \<open>Video identifier extraction\<close>

datatype js_error = TypeError

text \<open>
  The body of the \<open>try\<close> block of \<open>extractYoutubeVideoId\<close>. Calling \<open>split\<close> on \<open>undefined\<close>
  raises a TypeError; \<open>[0]\<close> of an array may be \<open>undefined\<close>, which is then the value returned.
\<close>

definition extractYoutubeVideoId_try :: "string \<Rightarrow> js_error + string option" where
  "extractYoutubeVideoId_try url =
     (if str_includes url ''watch?v='' then
        (case at_index (js_split url ''watch?v='') 1 of
           None \<Rightarrow> Inl TypeError
         | Some seg \<Rightarrow> Inr (at_index (js_split seg ''&'') 0))
      else if str_includes url ''youtu.be/'' then
        (case at_index (js_split url ''youtu.be/'') 1 of
           None \<Rightarrow> Inl TypeError
         | Some seg \<Rightarrow> Inr (at_index (js_split seg ''?'') 0))
      else Inr (Some ''''))"

definition extractYoutubeVideoId :: "string \<Rightarrow> string option" where
  "extractYoutubeVideoId url =
     (case extractYoutubeVideoId_try url of Inl error \<Rightarrow> Some '''' | Inr v \<Rightarrow> v)"

section \<open>Document nodes\<close>

text \<open>
  A node as the replacement functions read it: its \<open>nodeName\<close>, its attributes, its children
  in document order, the data of a text node, its serialisation \<open>outerHTML\<close> and its
  \<open>previousSibling\<close> (\<open>None\<close> for \<open>null\<close>). The \<open>nodeName\<close> of an HTML element is its tag
  in upper case (\<open>FIGURE\<close>); an element of a foreign namespace, which the parser creates
  inside \<open>svg\<close> and \<open>math\<close>, keeps the lower-case name the parser gave it (\<open>figcaption\<close>);
  a text node is named \<open>#text\<close> and a comment \<open>#comment\<close>.
\<close>

datatype node =
  Node (nodeName: string) (attributes: "(string \<times> string) list") (childNodes: "node list")
       (nodeValue: string) (outerHTML: string) (previousSibling: "node option")

definition getAttribute :: "node \<Rightarrow> string \<Rightarrow> string option" where
  "getAttribute n name = map_of (attributes n) name"

definition ascii_space :: "char \<Rightarrow> bool" where
  "ascii_space c = (c \<in> set [CHR 0x09, LF, CHR 0x0C, CR, CHR '' ''])"

text \<open>The tokens of a class attribute: the maximal runs without white space.\<close>

fun tokens :: "string \<Rightarrow> string \<Rightarrow> string list" where
  "tokens cur [] = (if cur = [] then [] else [rev cur])"
| "tokens cur (x # xs) =
     (if ascii_space x then (if cur = [] then tokens [] xs else rev cur # tokens [] xs)
      else tokens (x # cur) xs)"

definition classList_contains :: "node \<Rightarrow> string \<Rightarrow> bool" where
  "classList_contains n c =
     (case getAttribute n ''class'' of None \<Rightarrow> False | Some v \<Rightarrow> c \<in> set (tokens [] v))"

text \<open>The descendants of a node in document order.\<close>

fun descendants :: "node \<Rightarrow> node list" where
  "descendants (Node nm at ch d oh pv) = concat (map (\<lambda>c. c # descendants c) ch)"

text \<open>
  \<open>node.querySelector(sel)\<close> for a type selector and for a class selector: the first
  descendant element, in document order, that matches. A type selector matches an element
  whose name is the selector's up to the case of its letters: \<open>figcaption\<close> selects an HTML
  element named \<open>FIGCAPTION\<close> and also a foreign element named \<open>figcaption\<close>.
\<close>

definition querySelector_tag :: "node \<Rightarrow> string \<Rightarrow> node option" where
  "querySelector_tag n t =
     find (\<lambda>d. map to_lower (nodeName d) = map to_lower t) (descendants n)"

definition is_element :: "node \<Rightarrow> bool" where
  "is_element n = (take 1 (nodeName n) \<noteq> ''#'' \<and> nodeName n \<noteq> [])"

definition querySelector_class :: "node \<Rightarrow> string \<Rightarrow> node option" where
  "querySelector_class n c = find (\<lambda>d. is_element d \<and> classList_contains d c) (descendants n)"

text \<open>
  \<open>node.textContent\<close>: the data of a text node; for an element the text of its descendants,
  comments left out.
\<close>

fun textContent :: "node \<Rightarrow> string" where
  "textContent (Node nm at ch d oh pv) =
     (if nm = ''#text'' \<or> nm = ''#comment'' then d
      else concat (map (\<lambda>c. if nodeName c = ''#comment'' then [] else textContent c) ch))"

section \<open>The rules added to the converter\<close>

text \<open>
  The converter is the external library; the translator only calls its \<open>turndown\<close> method,
  which is therefore a field of the service the rules and \<open>getPostContent\<close> receive.
\<close>

record turndown_service =
  turndown :: "string \<Rightarrow> string"

text \<open>
  Each rule is its \<open>filter\<close> and its \<open>replacement\<close>, which receives the converted children
  (\<open>content\<close>) and the node. A filter given as a tag name (\<open>filter: 'script'\<close>) is compared
  by the converter with the node's name in lower case; a filter given as a function compares
  \<open>nodeName\<close> as the function says.
\<close>

definition script_filter :: "node \<Rightarrow> bool" where
  "script_filter node = (map to_lower (nodeName node) = ''script'')"

definition script_replacement :: "string \<Rightarrow> node \<Rightarrow> string" where
  "script_replacement content node =
     (let before =
            (case previousSibling node of
               None \<Rightarrow> [LF, LF]
             | Some p \<Rightarrow> if nodeName p \<noteq> ''#text'' then [LF] else [LF, LF]);
          html = replace_str (outerHTML node) (''async='' @ [DQ, DQ]) ''async''
      in before @ html @ [LF, LF])"

definition iframe_filter :: "node \<Rightarrow> bool" where
  "iframe_filter node = (map to_lower (nodeName node) = ''iframe'')"

definition iframe_replacement :: "string \<Rightarrow> node \<Rightarrow> string" where
  "iframe_replacement content node =
     (let html =
            replace_str
              (replace_str (outerHTML node) (''allowfullscreen='' @ [DQ, DQ]) ''allowfullscreen'')
              (''allowpaymentrequest='' @ [DQ, DQ]) ''allowpaymentrequest''
      in [LF, LF] @ html @ [LF, LF])"

definition figure_filter :: "node \<Rightarrow> bool" where
  "figure_filter node = (map to_lower (nodeName node) = ''figure'')"

definition figure_replacement :: "string \<Rightarrow> node \<Rightarrow> string" where
  "figure_replacement content node =
     (if querySelector_tag node ''figcaption'' \<noteq> None then
        (let result = [LF, LF] @ ''<figure>'' @ [LF, LF] @ content @ [LF, LF] @ ''</figure>'' @ [LF, LF]
         in replace_str result [LF, LF, LF, LF] [LF, LF])
      else content)"

definition figcaption_replacement :: "string \<Rightarrow> node \<Rightarrow> string" where
  "figcaption_replacement content node =
     [LF, LF] @ ''<figcaption>'' @ [LF, LF] @ content @ [LF, LF] @ ''</figcaption>'' @ [LF, LF]"

definition pre_filter :: "node \<Rightarrow> bool" where
  "pre_filter node = (nodeName node = ''PRE'' \<and> querySelector_tag node ''code'' = None)"

definition pre_replacement :: "string \<Rightarrow> node \<Rightarrow> string" where
  "pre_replacement content node =
     (let language = (case getAttribute node ''data-wetm-language'' of None \<Rightarrow> [] | Some l \<Rightarrow> l)
      in [LF, LF] @ ''```'' @ language @ [LF] @ textContent node @ [LF] @ ''```'' @ [LF, LF])"

definition wpBlockTable_filter :: "node \<Rightarrow> bool" where
  "wpBlockTable_filter node =
     (nodeName node = ''FIGURE'' \<and> classList_contains node ''wp-block-table'')"

definition wpBlockTable_replacement :: "turndown_service \<Rightarrow> string \<Rightarrow> node \<Rightarrow> string" where
  "wpBlockTable_replacement turndownService content node =
     (let tableMarkdown =
            (case querySelector_tag node ''table'' of
               None \<Rightarrow> []
             | Some table \<Rightarrow> turndown turndownService (outerHTML table))
      in case querySelector_tag node ''figcaption'' of
           Some figcaption \<Rightarrow>
             (let captionMarkdown = turndown turndownService (outerHTML figcaption)
              in tableMarkdown @ [LF, LF] @ captionMarkdown)
         | None \<Rightarrow> tableMarkdown)"

definition wpEmbedYoutube_filter :: "node \<Rightarrow> bool" where
  "wpEmbedYoutube_filter node =
     (nodeName node = ''FIGURE'' \<and> classList_contains node ''wp-block-embed-youtube'')"

definition youtube_iframe :: "string \<Rightarrow> string" where
  "youtube_iframe videoId =
     [LF, LF] @ ''<iframe width='' @ [DQ] @ ''560'' @ [DQ] @ '' height='' @ [DQ] @ ''315'' @ [DQ]
     @ '' src='' @ [DQ] @ ''https://www.youtube.com/embed/'' @ videoId @ [DQ]
     @ '' title='' @ [DQ] @ ''YouTube video player'' @ [DQ]
     @ '' frameborder='' @ [DQ] @ ''0'' @ [DQ]
     @ '' allow='' @ [DQ]
     @ ''accelerometer; autoplay; clipboard-write; encrypted-media; gyroscope; picture-in-picture''
     @ [DQ] @ '' allowfullscreen></iframe>'' @ [LF, LF]"

text \<open>
  In \<open>if (videoId)\<close> the empty string and \<open>undefined\<close> are both false.
\<close>

definition wpEmbedYoutube_replacement :: "string \<Rightarrow> node \<Rightarrow> string" where
  "wpEmbedYoutube_replacement content node =
     (case querySelector_class node ''wp-block-embed__wrapper'' of
        None \<Rightarrow> content
      | Some wrapper \<Rightarrow>
          (let url = trim (textContent wrapper) in
           case extractYoutubeVideoId url of
             None \<Rightarrow> content
           | Some videoId \<Rightarrow> if videoId \<noteq> [] then youtube_iframe videoId else content))"

section \<open>Converting the content of a post\<close>

text \<open>\<open>/(\r?\n){2}/g\<close> and its replacement\<close>

definition re_blank_line :: regex where
  "re_blank_line = Times 2 (Cap 1 (Seq (Opt (Str [CR])) (Str [LF])))"

definition tm_blank_line :: "piece list" where
  "tm_blank_line = [Txt ([LF] @ ''<div></div>'' @ [LF])]"

text \<open>\<open>/(<img[^>]*src=").*?([^/"]+\.(?:gif|jpe?g|png|webp))("[^>]*>)/gi\<close> and \<open>$1images/$2$3\<close>\<close>

definition re_image :: regex where
  "re_image =
     seqs [Cap 1 (seqs [Str ''<img'', Star (NoneOf ''>''), Str (''src='' @ [DQ])]),
           LazyStar Dot,
           Cap 2 (seqs [Plus (NoneOf (''/'' @ [DQ])), Str ''.'',
                        alts [Str ''gif'', seqs [Str ''jp'', Opt (Str ''e''), Str ''g''],
                              Str ''png'', Str ''webp'']]),
           Cap 3 (seqs [Str [DQ], Star (NoneOf ''>''), Str ''>''])]"

definition tm_image :: "piece list" where
  "tm_image = [Grp 1, Txt ''images/'', Grp 2, Grp 3]"

text \<open>\<open>/<(!--more( .*)?--)>/\<close> and \<open>&lt;$1&gt;\<close>\<close>

definition re_more :: regex where
  "re_more =
     seqs [Str ''<'',
           Cap 1 (seqs [Str ''!--more'', Opt (Cap 2 (Seq (Str '' '') (Star Dot))), Str ''--'']),
           Str ''>'']"

definition tm_more :: "piece list" where
  "tm_more = [Txt ''&lt;'', Grp 1, Txt ''&gt;'']"

text \<open>\<open>/(<!-- wp:.+? \{"language":"(.+?)"\} -->\r?\n<pre )/g\<close> and \<open>$1data-wetm-language="$2" \<close>\<close>

definition re_language :: regex where
  "re_language =
     Cap 1 (seqs [Str ''<!-- wp:'', LazyPlus Dot,
                  Str ('' {'' @ [DQ] @ ''language'' @ [DQ] @ '':'' @ [DQ]),
                  Cap 2 (LazyPlus Dot),
                  Str ([DQ] @ ''} -->''), Opt (Str [CR]), Str [LF], Str ''<pre ''])"

definition tm_language :: "piece list" where
  "tm_language = [Grp 1, Txt (''data-wetm-language='' @ [DQ]), Grp 2, Txt ([DQ] @ '' '')]"

text \<open>\<open>/(-|\d+\.) +/g\<close> and \<open>$1 \<close>\<close>

definition re_list_marker :: regex where
  "re_list_marker = Seq (Cap 1 (Alt (Str ''-'') (Seq (Plus Digit) (Str ''.'')))) (Plus (Str '' ''))"

definition tm_list_marker :: "piece list" where
  "tm_list_marker = [Grp 1, Txt '' '']"


record config =
  saveScrapedImages :: bool

text \<open>
  \<open>getPostContent\<close> is written in three parts: \<open>preprocess\<close> is its statements before the
  call of \<open>turndown\<close>, in the order of the source, and \<open>postprocess\<close> is the statement after
  it.
\<close>

definition preprocess :: "config \<Rightarrow> string \<Rightarrow> string" where
  "preprocess config content0 =
     (let content1 = replace_all_re content0 False re_blank_line tm_blank_line;
          content2 = (if saveScrapedImages config
                      then replace_all_re content1 True re_image tm_image else content1);
          content3 = replace_re content2 False re_more tm_more;
          content4 = replace_all_re content3 False re_language tm_language
      in content4)"

definition postprocess :: "string \<Rightarrow> string" where
  "postprocess content = replace_all_re content False re_list_marker tm_list_marker"


section \<open>Notions used in the statements\<close>

text \<open>
  These are not functions of the translator. \<open>marker_at s\<close> is the closed form of the first
  match of the list-marker expression at the start of \<open>s\<close> (the marker and the input after
  the spaces that follow it), proved below to be what the matcher computes; \<open>is_label\<close>
  says what may stand between \<open><!--more\<close> and \<open>-->\<close>: nothing, or a space and characters of
  one line.
\<close>

abbreviation sp :: "char \<Rightarrow> bool" where "sp \<equiv> (\<lambda>c. c = CHR '' '')"

definition marker_at :: "string \<Rightarrow> (string \<times> string) option" where
  "marker_at s =
     (case s of
        [] \<Rightarrow> None
      | x # xs \<Rightarrow>
          if x = CHR ''-'' then
            (if take 1 xs = '' '' then Some (''-'', dropWhile (\<lambda>c. c = CHR '' '') xs) else None)
          else if is_digit x then
            (case dropWhile is_digit xs of
               [] \<Rightarrow> None
             | y # ys \<Rightarrow>
                 if y = CHR ''.'' \<and> take 1 ys = '' ''
                 then Some (x # takeWhile is_digit xs @ ''.'', dropWhile (\<lambda>c. c = CHR '' '') ys)
                 else None)
          else None)"


section \<open>Sample documents\<close>

text \<open>Inputs at which the claims are evaluated.\<close>

definition two_images :: string where
  "two_images =
     ''<img src='' @ [DQ] @ ''logo.bmp'' @ [DQ] @ ''> <img src='' @ [DQ] @ ''photo.png'' @ [DQ] @ ''>''"

definition caption_only_table :: node where
  "caption_only_table =
     Node ''FIGURE'' [(''class'', ''wp-block-table'')]
       [Node ''FIGCAPTION'' [] [Node ''#text'' [] [] ''Totals'' [] None] []
          ''<figcaption>Totals</figcaption>'' None]
       []
       (''<figure class='' @ [DQ] @ ''wp-block-table'' @ [DQ]
          @ ''><figcaption>Totals</figcaption></figure>'')
       None"

text \<open>The same figure with its caption inside an \<open>svg\<close> element, where the parser names it in lower case.\<close>

definition svg_caption_table :: node where
  "svg_caption_table =
     Node ''FIGURE'' [(''class'', ''wp-block-table'')]
       [Node ''svg'' []
          [Node ''figcaption'' [] [Node ''#text'' [] [] ''Totals'' [] None] []
             ''<figcaption>Totals</figcaption>'' None]
          [] ''<svg><figcaption>Totals</figcaption></svg>'' None]
       []
       (''<figure class='' @ [DQ] @ ''wp-block-table'' @ [DQ]
          @ ''><svg><figcaption>Totals</figcaption></svg></figure>'')
       None"

definition empty_table_figure :: node where
  "empty_table_figure =
     Node ''FIGURE'' [(''class'', ''wp-block-table'')]
       [Node ''P'' [] [Node ''#text'' [] [] ''no table here'' [] None] []
          ''<p>no table here</p>'' None]
       []
       (''<figure class='' @ [DQ] @ ''wp-block-table'' @ [DQ] @ ''><p>no table here</p></figure>'')
       None"

definition captioned_embed :: node where
  "captioned_embed =
     Node ''FIGURE'' [(''class'', ''wp-block-embed'')]
       [Node ''DIV'' [(''class'', ''wp-block-embed__wrapper'')]
          [Node ''#text'' [] [] ''https://example.com/'' [] None] []
          (''<div class='' @ [DQ] @ ''wp-block-embed__wrapper'' @ [DQ]
             @ ''>https://example.com/</div>'')
          None,
        Node ''FIGCAPTION'' [] [Node ''#text'' [] [] ''cap'' [] None] []
          ''<figcaption>cap</figcaption>''
          (Some (Node ''DIV'' [(''class'', ''wp-block-embed__wrapper'')]
             [Node ''#text'' [] [] ''https://example.com/'' [] None] []
             (''<div class='' @ [DQ] @ ''wp-block-embed__wrapper'' @ [DQ]
                @ ''>https://example.com/</div>'')
             None))]
       []
       (''<figure class='' @ [DQ] @ ''wp-block-embed'' @ [DQ] @ ''><div class='' @ [DQ]
          @ ''wp-block-embed__wrapper'' @ [DQ]
          @ ''>https://example.com/</div><figcaption>cap</figcaption></figure>'')
       None"

text \<open>
  The converted children of \<open>captioned_embed\<close>: the text of the block element between
  blank lines, joined with what the caption rule returns for \<open>cap\<close>.
\<close>

definition captioned_embed_content :: string where
  "captioned_embed_content =
     [LF, LF] @ ''https://example.com/'' @ [LF, LF] @ ''<figcaption>'' @ [LF, LF] @ ''cap''
       @ [LF, LF] @ ''</figcaption>'' @ [LF, LF]"

definition plain_figure :: node where
  "plain_figure =
     Node ''FIGURE'' [] [Node ''IMG'' [(''src'', ''a.png'')] [] []
          (''<img src='' @ [DQ] @ ''a.png'' @ [DQ] @ ''>'') None]
       [] (''<figure><img src='' @ [DQ] @ ''a.png'' @ [DQ] @ ''></figure>'') None"

definition example_embed :: node where
  "example_embed =
     Node ''FIGURE'' [(''class'', ''wp-block-embed wp-block-embed-youtube'')]
       [Node ''DIV'' [(''class'', ''wp-block-embed__wrapper'')]
          [Node ''#text'' [] [] ([LF] @ ''https://example.com/video'' @ [LF]) [] None]
          []
          (''<div class='' @ [DQ] @ ''wp-block-embed__wrapper'' @ [DQ] @ ''>'' @ [LF]
             @ ''https://example.com/video'' @ [LF] @ ''</div>'')
          None]
       []
       (''<figure class='' @ [DQ] @ ''wp-block-embed wp-block-embed-youtube'' @ [DQ]
          @ ''><div class='' @ [DQ] @ ''wp-block-embed__wrapper'' @ [DQ] @ ''>'' @ [LF]
          @ ''https://example.com/video'' @ [LF] @ ''</div></figure>'')
       None"

definition tweet_script :: node where
  "tweet_script =
     Node ''SCRIPT'' [(''async'', []), (''src'', ''https://platform.twitter.com/widgets.js'')] [] []
       (''<script async='' @ [DQ, DQ] @ '' src='' @ [DQ] @ ''https://platform.twitter.com/widgets.js''
          @ [DQ] @ ''></script>'')
       (Some (Node ''BLOCKQUOTE'' [(''class'', ''twitter-tweet'')] [] [] [] None))"

definition video_iframe :: node where
  "video_iframe =
     Node ''IFRAME'' [(''src'', ''https://example.com/v''), (''allowfullscreen'', [])] [] []
       (''<iframe src='' @ [DQ] @ ''https://example.com/v'' @ [DQ] @ '' allowfullscreen=''
          @ [DQ, DQ] @ ''></iframe>'')
       None"

text \<open>
  An iframe as video sites hand it out, with the vendor-prefixed forms of the full-screen
  attribute before the attribute itself, and a script with a \<open>data-async\<close> attribute before
  its \<open>async\<close> attribute; \<open>outerHTML\<close> serialises an attribute without value as \<open>name=""\<close>.
\<close>

definition vimeo_iframe :: node where
  "vimeo_iframe =
     Node ''IFRAME''
       [(''src'', ''https://player.vimeo.com/video/1''), (''webkitallowfullscreen'', []),
        (''mozallowfullscreen'', []), (''allowfullscreen'', [])] [] []
       (''<iframe src='' @ [DQ] @ ''https://player.vimeo.com/video/1'' @ [DQ]
          @ '' webkitallowfullscreen='' @ [DQ, DQ] @ '' mozallowfullscreen='' @ [DQ, DQ]
          @ '' allowfullscreen='' @ [DQ, DQ] @ ''></iframe>'')
       None"

definition data_async_script :: node where
  "data_async_script =
     Node ''SCRIPT'' [(''data-async'', []), (''async'', []), (''src'', ''https://example.com/w.js'')]
       [] []
       (''<script data-async='' @ [DQ, DQ] @ '' async='' @ [DQ, DQ] @ '' src='' @ [DQ]
          @ ''https://example.com/w.js'' @ [DQ] @ ''></script>'')
       None"

definition code_sample :: node where
  "code_sample =
     Node ''PRE'' [] [Node ''#text'' [] [] ''x = a -  b'' [] None] [] ''<pre>x = a -  b</pre>'' None"

section \<open>Facts about the string functions\<close>

lemma cut_at_complete:
  "s = b' @ sep @ a' \<Longrightarrow> \<exists>b a. cut_at sep s = Some (b, a) \<and> length b \<le> length b'"
proof (induction s arbitrary: b')
  case Nil
  then show ?case by simp
next
  case (Cons x xs)
  show ?case
  proof (cases "take (length sep) (x # xs) = sep")
    case True
    then show ?thesis by simp
  next
    case False
    have "b' \<noteq> []"
    proof
      assume "b' = []"
      with Cons.prems have "x # xs = sep @ a'" by simp
      then have "take (length sep) (x # xs) = sep" by simp
      with False show False by simp
    qed
    then obtain b'' where b': "b' = x # b''" and xs: "xs = b'' @ sep @ a'"
      using Cons.prems by (cases b') auto
    from Cons.IH [OF xs] obtain b a where "cut_at sep xs = Some (b, a)" "length b \<le> length b''"
      by blast
    with False b' show ?thesis by simp
  qed
qed

lemma cut_at_None: "cut_at sep s = None \<Longrightarrow> s \<noteq> b' @ sep @ a'"
  using cut_at_complete [of s b' sep a'] by auto

lemma cut_at_first: "cut_at sep s = Some (b, a) \<Longrightarrow> s = b' @ sep @ a' \<Longrightarrow> length b \<le> length b'"
  using cut_at_complete [of s b' sep a'] by auto

lemma cut_at_unique:
  assumes "s = b @ sep @ a" and "\<forall>b' a'. s = b' @ sep @ a' \<longrightarrow> length b \<le> length b'"
  shows "cut_at sep s = Some (b, a)"
proof -
  from cut_at_complete [OF assms(1)] obtain b2 a2
    where c: "cut_at sep s = Some (b2, a2)" and le: "length b2 \<le> length b" by blast
  from cut_at_decomp [OF c] have d: "s = b2 @ sep @ a2" .
  with assms(2) have "length b \<le> length b2" by blast
  with le have "length b = length b2" by simp
  with d assms(1) have "b = b2 \<and> a = a2" by simp
  with c show ?thesis by simp
qed

lemma str_includes_iff: "str_includes s sep \<longleftrightarrow> (\<exists>b a. s = b @ sep @ a)"
proof
  assume "str_includes s sep"
  then obtain b a where "cut_at sep s = Some (b, a)" by (auto simp: str_includes_def)
  then show "\<exists>b a. s = b @ sep @ a" using cut_at_decomp by blast
next
  assume "\<exists>b a. s = b @ sep @ a"
  then obtain b a where "s = b @ sep @ a" by blast
  from cut_at_complete [OF this] show "str_includes s sep" by (auto simp: str_includes_def)
qed

lemma js_split_first:
  "sep \<noteq> [] \<Longrightarrow>
   at_index (js_split s sep) 0 = Some (case cut_at sep s of None \<Rightarrow> s | Some (b, a) \<Rightarrow> b)"
  by (subst js_split.simps) (simp add: at_index_def split: option.splits)

lemma js_split_second:
  "sep \<noteq> [] \<Longrightarrow> cut_at sep s = Some (b, a) \<Longrightarrow>
   at_index (js_split s sep) 1 = at_index (js_split a sep) 0"
  by (subst js_split.simps) (simp add: at_index_def)

text \<open>The piece of \<open>s\<close> before the first occurrence of \<open>sep\<close>, or all of \<open>s\<close>.\<close>

lemma before_sep:
  assumes "sep \<noteq> []"
  shows "\<exists>seg t. s = seg @ t \<and> at_index (js_split s sep) 0 = Some seg
           \<and> (\<forall>u v. s = u @ sep @ v \<longrightarrow> length seg \<le> length u)
           \<and> (t = [] \<or> take (length sep) t = sep)"
proof (cases "cut_at sep s")
  case None
  then have "at_index (js_split s sep) 0 = Some s" using assms by (simp add: js_split_first)
  moreover have "\<forall>u v. s \<noteq> u @ sep @ v" using None cut_at_None by blast
  ultimately show ?thesis by auto
next
  case (Some p)
  then obtain b a where c: "cut_at sep s = Some (b, a)" by (cases p) auto
  then have "at_index (js_split s sep) 0 = Some b" using assms by (simp add: js_split_first)
  moreover have "s = b @ (sep @ a)" using cut_at_decomp [OF c] .
  moreover have "\<forall>u v. s = u @ sep @ v \<longrightarrow> length b \<le> length u" using cut_at_first [OF c] by blast
  ultimately show ?thesis by (intro exI [of _ b] exI [of _ "sep @ a"]) simp
qed

lemma split_segment:
  assumes sep: "sep \<noteq> []"
    and url: "url = a @ sep @ r"
    and first: "\<forall>a' r'. url = a' @ sep @ r' \<longrightarrow> length a \<le> length a'"
  shows "\<exists>seg t. r = seg @ t
           \<and> (case at_index (js_split url sep) 1 of
                 None \<Rightarrow> Inl TypeError
               | Some x \<Rightarrow> Inr (at_index (js_split x [c]) 0)) = Inr (Some seg)
           \<and> c \<notin> set seg
           \<and> (\<forall>u v. r = u @ sep @ v \<longrightarrow> length seg \<le> length u)
           \<and> (t = [] \<or> take 1 t = [c] \<or> take (length sep) t = sep)"
proof -
  have c: "cut_at sep url = Some (a, r)" using cut_at_unique [OF url first] .
  from before_sep [OF sep, of r] obtain s1 t1 where r: "r = s1 @ t1"
    and i1: "at_index (js_split r sep) 0 = Some s1"
    and f1: "\<forall>u v. r = u @ sep @ v \<longrightarrow> length s1 \<le> length u"
    and e1: "t1 = [] \<or> take (length sep) t1 = sep" by blast
  from before_sep [of "[c]" s1] obtain s2 t2 where s1: "s1 = s2 @ t2"
    and i2: "at_index (js_split s1 [c]) 0 = Some s2"
    and f2: "\<forall>u v. s1 = u @ [c] @ v \<longrightarrow> length s2 \<le> length u"
    and e2: "t2 = [] \<or> take (length [c]) t2 = [c]" by blast
  have "c \<notin> set s2"
  proof
    assume "c \<in> set s2"
    then obtain u v where "s2 = u @ c # v" by (auto simp: in_set_conv_decomp)
    then have "s1 = u @ [c] @ (v @ t2)" "length u < length s2" using s1 by simp_all
    with f2 show False by (metis not_less)
  qed
  moreover have "r = s2 @ (t2 @ t1)" using r s1 by simp
  moreover have "at_index (js_split url sep) 1 = Some s1"
    using js_split_second [OF sep c] i1 by simp
  moreover have "\<forall>u v. r = u @ sep @ v \<longrightarrow> length s2 \<le> length u"
    using f1 s1 by fastforce
  moreover have "t2 @ t1 = [] \<or> take 1 (t2 @ t1) = [c] \<or> take (length sep) (t2 @ t1) = sep"
    using e1 e2 by (cases t2) auto
  ultimately show ?thesis using i2 by (intro exI [of _ s2] exI [of _ "t2 @ t1"]) simp
qed

lemma extract_never_raises: "\<exists>v. extractYoutubeVideoId_try url = Inr (Some v)"
proof -
  have two: "\<exists>x. at_index (js_split s sep) 1 = Some x" if "str_includes s sep" "sep \<noteq> []" for s sep
  proof -
    from that obtain b a where c: "cut_at sep s = Some (b, a)" by (auto simp: str_includes_def)
    show ?thesis using js_split_second [OF that(2) c] js_split_first [OF that(2), of a] by simp
  qed
  have one: "\<exists>x. at_index (js_split s [c]) 0 = Some x" for s c
    by (simp add: js_split_first)
  show ?thesis
    unfolding extractYoutubeVideoId_try_def
    using two [of url "''watch?v=''"] two [of url "''youtu.be/''"] one
    by (auto split: option.splits)
qed

lemma replace_str_first:
  "s = b @ pat @ a \<Longrightarrow> \<forall>b' a'. s = b' @ pat @ a' \<longrightarrow> length b \<le> length b' \<Longrightarrow>
   replace_str s pat rep = b @ rep @ a"
  by (simp add: replace_str_def cut_at_unique)

lemma replace_str_none: "\<nexists>b a. s = b @ pat @ a \<Longrightarrow> replace_str s pat rep = s"
  using cut_at_decomp [of pat s] by (cases "cut_at pat s") (auto simp: replace_str_def)

lemma querySelector_tag_None:
  "querySelector_tag n t = None
     \<longleftrightarrow> (\<forall>d \<in> set (descendants n). map to_lower (nodeName d) \<noteq> map to_lower t)"
  by (auto simp: querySelector_tag_def find_None_iff)

lemma find_first:
  "find P xs = Some x \<Longrightarrow> \<exists>pre post. xs = pre @ x # post \<and> P x \<and> (\<forall>d \<in> set pre. \<not> P d)"
proof (induction xs)
  case Nil
  then show ?case by simp
next
  case (Cons y ys)
  show ?case
  proof (cases "P y")
    case True
    with Cons.prems have "x = y" by simp
    with True have "y # ys = [] @ x # ys \<and> P x \<and> (\<forall>d \<in> set []. \<not> P d)" by simp
    then show ?thesis by blast
  next
    case False
    with Cons.prems have "find P ys = Some x" by simp
    from Cons.IH [OF this] obtain pre post
      where "ys = pre @ x # post" "P x" "\<forall>d \<in> set pre. \<not> P d" by blast
    with False have "y # ys = (y # pre) @ x # post \<and> P x \<and> (\<forall>d \<in> set (y # pre). \<not> P d)"
      by simp
    then show ?thesis by blast
  qed
qed

lemma querySelector_tag_Some:
  "querySelector_tag n t = Some x \<Longrightarrow>
     \<exists>pre post. descendants n = pre @ x # post \<and> map to_lower (nodeName x) = map to_lower t
       \<and> (\<forall>d \<in> set pre. map to_lower (nodeName d) \<noteq> map to_lower t)"
  unfolding querySelector_tag_def by (rule find_first)

lemma querySelector_tag_exists:
  "\<exists>d \<in> set (descendants n). map to_lower (nodeName d) = map to_lower t \<Longrightarrow>
     \<exists>x. querySelector_tag n t = Some x"
  using querySelector_tag_None [of n t] by (cases "querySelector_tag n t") auto

lemma lower_names:
  "map to_lower ''table'' = ''table''" "map to_lower ''figcaption'' = ''figcaption''"
  "map to_lower ''code'' = ''code''"
  by code_simp+

section \<open>Facts about the video identifier\<close>

lemma extract_watch:
  assumes "url = a @ ''watch?v='' @ r"
    and "\<forall>a' r'. url = a' @ ''watch?v='' @ r' \<longrightarrow> length a \<le> length a'"
  shows "\<exists>seg t. r = seg @ t \<and> extractYoutubeVideoId url = Some seg \<and> CHR ''&'' \<notin> set seg
           \<and> (\<forall>u v. r = u @ ''watch?v='' @ v \<longrightarrow> length seg \<le> length u)
           \<and> (t = [] \<or> take 1 t = ''&'' \<or> take 8 t = ''watch?v='')"
proof -
  have inc: "str_includes url ''watch?v=''" using assms(1) str_includes_iff by blast
  have len: "length ''watch?v='' = 8" by simp
  from split_segment [OF _ assms, of "CHR ''&''", unfolded len] obtain seg t where
    "r = seg @ t"
    "(case at_index (js_split url ''watch?v='') 1 of None \<Rightarrow> Inl TypeError
       | Some x \<Rightarrow> Inr (at_index (js_split x ''&'') 0)) = Inr (Some seg)"
    "CHR ''&'' \<notin> set seg"
    "\<forall>u v. r = u @ ''watch?v='' @ v \<longrightarrow> length seg \<le> length u"
    "t = [] \<or> take 1 t = ''&'' \<or> take 8 t = ''watch?v=''"
    by auto
  moreover from this(2) inc have "extractYoutubeVideoId url = Some seg"
    by (simp add: extractYoutubeVideoId_def extractYoutubeVideoId_try_def)
  ultimately show ?thesis by blast
qed

lemma extract_short:
  assumes "\<nexists>a r. url = a @ ''watch?v='' @ r"
    and "url = a @ ''youtu.be/'' @ r"
    and "\<forall>a' r'. url = a' @ ''youtu.be/'' @ r' \<longrightarrow> length a \<le> length a'"
  shows "\<exists>seg t. r = seg @ t \<and> extractYoutubeVideoId url = Some seg \<and> CHR ''?'' \<notin> set seg
           \<and> (\<forall>u v. r = u @ ''youtu.be/'' @ v \<longrightarrow> length seg \<le> length u)
           \<and> (t = [] \<or> take 1 t = ''?'' \<or> take 9 t = ''youtu.be/'')"
proof -
  have ninc: "\<not> str_includes url ''watch?v=''" using assms(1) str_includes_iff by blast
  have inc: "str_includes url ''youtu.be/''" using assms(2) str_includes_iff by blast
  have len: "length ''youtu.be/'' = 9" by simp
  from split_segment [OF _ assms(2,3), of "CHR ''?''", unfolded len] obtain seg t where
    "r = seg @ t"
    "(case at_index (js_split url ''youtu.be/'') 1 of None \<Rightarrow> Inl TypeError
       | Some x \<Rightarrow> Inr (at_index (js_split x ''?'') 0)) = Inr (Some seg)"
    "CHR ''?'' \<notin> set seg"
    "\<forall>u v. r = u @ ''youtu.be/'' @ v \<longrightarrow> length seg \<le> length u"
    "t = [] \<or> take 1 t = ''?'' \<or> take 9 t = ''youtu.be/''"
    by auto
  moreover from this(2) inc ninc have "extractYoutubeVideoId url = Some seg"
    by (simp add: extractYoutubeVideoId_def extractYoutubeVideoId_try_def)
  ultimately show ?thesis by blast
qed

lemma extract_neither:
  assumes "\<nexists>a r. url = a @ ''watch?v='' @ r" and "\<nexists>a r. url = a @ ''youtu.be/'' @ r"
  shows "extractYoutubeVideoId url = Some []"
  using assms
  by (simp add: extractYoutubeVideoId_def extractYoutubeVideoId_try_def str_includes_iff)

section \<open>Facts about the matcher\<close>

lemma clear_Nil [simp]: "clear [] c = c"
  by (simp add: clear_def)

lemma canon_False [simp]: "canon False c = c"
  by (simp add: canon_def)

text \<open>
  An expression that consumes exactly one character, those that satisfy \<open>P\<close>, and sets no
  group: a literal character, the dot, a digit.
\<close>

lemma star_atom:
  assumes "groups a = []"
    and "\<And>c. rmatch ic a [] c = []"
    and "\<And>x xs c. rmatch ic a (x # xs) c = (if P x then [(xs, c)] else [])"
  shows "rmatch ic (Star a) [] c = [([], c)]"
    and "rmatch ic (Star a) (x # xs) c =
           (if P x then rmatch ic (Star a) xs c else []) @ [(x # xs, c)]"
  by (simp_all add: rmatch.simps(8) assms)

lemma plus_atom:
  assumes "groups a = []"
    and "\<And>c. rmatch ic a [] c = []"
    and "\<And>x xs c. rmatch ic a (x # xs) c = (if P x then [(xs, c)] else [])"
  shows "rmatch ic (Plus a) [] c = []"
    and "rmatch ic (Plus a) (x # xs) c = (if P x then rmatch ic (Star a) xs c else [])"
  by (simp_all add: rmatch.simps(9) assms)

lemma seq_star_atom:
  assumes "groups a = []"
    and "\<And>c. rmatch ic a [] c = []"
    and "\<And>x xs c. rmatch ic a (x # xs) c = (if P x then [(xs, c)] else [])"
  shows "rmatch ic (Seq (Star a) k) [] c = rmatch ic k [] c"
    and "rmatch ic (Seq (Star a) k) (x # xs) c =
           (if P x then rmatch ic (Seq (Star a) k) xs c else []) @ rmatch ic k (x # xs) c"
  by (simp_all add: rmatch.simps(5) star_atom [OF assms])

lemma seq_plus_atom:
  assumes "groups a = []"
    and "\<And>c. rmatch ic a [] c = []"
    and "\<And>x xs c. rmatch ic a (x # xs) c = (if P x then [(xs, c)] else [])"
  shows "rmatch ic (Seq (Plus a) k) [] c = []"
    and "rmatch ic (Seq (Plus a) k) (x # xs) c =
           (if P x then rmatch ic (Seq (Star a) k) xs c else [])"
  by (simp_all add: rmatch.simps(5) plus_atom [OF assms])

lemma atom_Digit:
  "groups Digit = []" "rmatch ic Digit [] c = []"
  "rmatch ic Digit (x # xs) c = (if is_digit x then [(xs, c)] else [])"
  by (simp_all add: rmatch.simps)


lemma atom_Str:
  "groups (Str [ch]) = []" "rmatch False (Str [ch]) [] c = []"
  "rmatch False (Str [ch]) (x # xs) c = (if x = ch then [(xs, c)] else [])"
  by (simp_all add: rmatch.simps)

lemmas star_space = star_atom [where a = "Str '' ''" and ic = False, OF atom_Str]

lemmas plus_space = plus_atom [where a = "Str '' ''" and ic = False, OF atom_Str]

lemmas digits_then = seq_star_atom [where a = Digit, OF atom_Digit]

lemmas digit_then = seq_plus_atom [where a = Digit, OF atom_Digit]

section \<open>The list-marker expression\<close>

lemma star_space_hd:
  "\<exists>rest. rmatch False (Star (Str '' '')) s c = (dropWhile (\<lambda>c. c = CHR '' '') s, c) # rest"
proof (induction s)
  case Nil
  show ?case by (simp add: star_space)
next
  case (Cons x xs)
  then show ?case by (auto simp: star_space)
qed

lemma not_digit: "\<not> is_digit CHR ''.''" "\<not> is_digit CHR ''-''" "\<not> is_digit CHR '' ''"
  by (simp_all add: is_digit_def)

lemma digits_then_dot:
  "rmatch False (Seq (Star Digit) (Str ''.'')) s c =
     (case dropWhile is_digit s of
        [] \<Rightarrow> []
      | y # ys \<Rightarrow> if y = CHR ''.'' then [(ys, c)] else [])"
proof (induction s)
  case Nil
  show ?case by (simp add: digits_then atom_Str)
next
  case (Cons x xs)
  show ?case
  proof (cases "is_digit x")
    case True
    then have "x \<noteq> CHR ''.''" using not_digit by auto
    with True Cons show ?thesis by (simp add: digits_then atom_Str)
  next
    case False
    then show ?thesis by (simp add: digits_then atom_Str)
  qed
qed

lemma list_marker_alternatives:
  "rmatch False (Alt (Str ''-'') (Seq (Plus Digit) (Str ''.''))) s c =
     (case s of
        [] \<Rightarrow> []
      | x # xs \<Rightarrow>
          if x = CHR ''-'' then [(xs, c)]
          else if is_digit x then
            (case dropWhile is_digit xs of
               [] \<Rightarrow> []
             | y # ys \<Rightarrow> if y = CHR ''.'' then [(ys, c)] else [])
          else [])"
proof (cases s)
  case Nil
  then show ?thesis by (simp add: rmatch.simps(6) digit_then atom_Str)
next
  case (Cons x xs)
  then show ?thesis
    using not_digit by (auto simp: rmatch.simps(6) digit_then atom_Str digits_then_dot)
qed

lemma plus_space_hd:
  "rmatch False (Plus (Str '' '')) s c =
     (case s of [] \<Rightarrow> [] | y # ys \<Rightarrow> if y = CHR '' '' then rmatch False (Star (Str '' '')) ys c else [])"
  by (cases s) (simp_all add: plus_space)

lemma list_marker_unfold:
  "rmatch False re_list_marker s Map.empty =
      concat (map (\<lambda>(s', c'). rmatch False (Plus (Str '' '')) s' c')
        (map (\<lambda>(s', c'). (s', c'(1 \<mapsto> take (length s - length s') s)))
           (rmatch False (Alt (Str ''-'') (Seq (Plus Digit) (Str ''.''))) s Map.empty)))"
  by (simp add: re_list_marker_def rmatch.simps(5) rmatch.simps(14))

lemma list_marker_match:
  "case marker_at s of
     None \<Rightarrow> rmatch False re_list_marker s Map.empty = []
   | Some (m, r) \<Rightarrow> \<exists>rest. rmatch False re_list_marker s Map.empty = (r, [1 \<mapsto> m]) # rest"
proof (cases s)
  case Nil
  then show ?thesis
    by (simp add: marker_at_def list_marker_unfold list_marker_alternatives)
next
  case (Cons x xs)
  show ?thesis
  proof (cases "x = CHR ''-''")
    case True
    show ?thesis
    proof (cases xs)
      case Nil
      with True Cons show ?thesis
        by (simp add: list_marker_unfold list_marker_alternatives marker_at_def plus_space_hd)
    next
      case (Cons y ys)
      obtain rest where "rmatch False (Star (Str '' '')) ys [1 \<mapsto> ''-''] = (dropWhile sp ys, [1 \<mapsto> ''-'']) # rest"
        using star_space_hd by blast
      with True Cons \<open>s = x # xs\<close> show ?thesis
        by (simp add: list_marker_unfold list_marker_alternatives marker_at_def plus_space_hd)
    qed
  next
    case False
    show ?thesis
    proof (cases "is_digit x")
      case nd: False
      with False Cons show ?thesis
        by (simp add: list_marker_unfold list_marker_alternatives marker_at_def)
    next
      case d: True
      show ?thesis
      proof (cases "dropWhile is_digit xs")
        case Nil
        with d False Cons show ?thesis
          by (simp add: list_marker_unfold list_marker_alternatives marker_at_def del: dropWhile_eq_Nil_conv)
      next
        case dw: (Cons y ys)
        define tw where "tw = takeWhile is_digit xs"
        have xs: "xs = tw @ y # ys"
          unfolding tw_def using dw by (metis takeWhile_dropWhile_id)
        have "take (length s - length ys) s = x # tw @ [y]"
          using Cons by (simp add: xs)
        then have tk: "take (length s - length ys) s = x # takeWhile is_digit xs @ [y]"
          by (simp add: tw_def)
        show ?thesis
        proof (cases "y = CHR ''.''")
          case nodot: False
          with d False Cons dw show ?thesis
            by (simp add: list_marker_unfold list_marker_alternatives marker_at_def)
        next
          case dot: True
          show ?thesis
          proof (cases ys)
            case Nil
            with dot d False dw \<open>s = x # xs\<close> show ?thesis
              by (simp add: list_marker_unfold list_marker_alternatives marker_at_def plus_space_hd)
          next
            case (Cons z zs)
            let ?c = "[1 \<mapsto> x # takeWhile is_digit xs @ ''.'']"
            obtain rest where "rmatch False (Star (Str '' '')) zs ?c = (dropWhile sp zs, ?c) # rest"
              using star_space_hd by blast
            with Cons dot d False dw \<open>s = x # xs\<close> tk show ?thesis
              by (simp add: list_marker_unfold list_marker_alternatives marker_at_def plus_space_hd)
          qed
        qed
      qed
    qed
  qed
qed

lemma marker_at_shorter: "marker_at s = Some (m, r) \<Longrightarrow> length r < length s"
proof -
  have dw: "length (dropWhile P xs) \<le> length xs" for P and xs :: string
    by (induction xs) auto
  assume "marker_at s = Some (m, r)"
  then show ?thesis
  proof (cases s)
    case Nil
    with \<open>marker_at s = Some (m, r)\<close> show ?thesis by (simp add: marker_at_def)
  next
    case (Cons x xs)
    show ?thesis
    proof (cases "x = CHR ''-''")
      case True
      with Cons \<open>marker_at s = Some (m, r)\<close> have "r = dropWhile sp xs"
        by (simp add: marker_at_def split: if_splits)
      with dw [of sp xs] Cons show ?thesis by simp
    next
      case False
      with Cons \<open>marker_at s = Some (m, r)\<close> obtain y ys where
        "dropWhile is_digit xs = y # ys" "r = dropWhile sp ys"
        by (auto simp: marker_at_def split: if_splits list.splits)
      with dw [of is_digit xs] dw [of sp ys] Cons show ?thesis by simp
    qed
  qed
qed

lemma postprocess_unfold:
  "postprocess s =
     (case marker_at s of
        None \<Rightarrow> (case s of [] \<Rightarrow> [] | x # xs \<Rightarrow> x # postprocess xs)
      | Some (m, r) \<Rightarrow> m @ '' '' @ postprocess r)"
proof (cases "marker_at s")
  case None
  with list_marker_match [of s] have "rmatch False re_list_marker s Map.empty = []" by simp
  with None show ?thesis
    unfolding postprocess_def by (subst replace_all_re.simps) simp
next
  case (Some p)
  obtain m r where p: "p = (m, r)" by (cases p)
  with Some list_marker_match [of s] obtain rest where
    "rmatch False re_list_marker s Map.empty = (r, [1 \<mapsto> m]) # rest" by auto
  moreover have "length r < length s" using Some p marker_at_shorter by blast
  ultimately show ?thesis using Some p
    unfolding postprocess_def by (subst replace_all_re.simps) (simp add: tm_list_marker_def)
qed

section \<open>Facts about the list-marker clean-up\<close>

lemma dropWhile_spaces: "take 1 r \<noteq> '' '' \<Longrightarrow> dropWhile sp (replicate k CHR '' '' @ r) = r"
  by (induction k) (cases r; simp)+

lemma dropWhile_sp_start: "take 1 (dropWhile sp s) \<noteq> '' ''"
  by (induction s) auto

lemma dropWhile_sp_decomp: "\<exists>k. s = replicate k CHR '' '' @ dropWhile sp s"
proof (induction s)
  case Nil
  show ?case by simp
next
  case (Cons x xs)
  then obtain k where k: "xs = replicate k CHR '' '' @ dropWhile sp xs" by blast
  show ?case
  proof (cases "x = CHR '' ''")
    case True
    have "x # xs = replicate (Suc k) CHR '' '' @ dropWhile sp (x # xs)"
      using True k by simp
    then show ?thesis by blast
  next
    case False
    then have "x # xs = replicate 0 CHR '' '' @ dropWhile sp (x # xs)" by simp
    then show ?thesis by blast
  qed
qed

lemma marker_at_dash:
  "take 1 r \<noteq> '' '' \<Longrightarrow> marker_at (''-'' @ replicate (Suc k) CHR '' '' @ r) = Some (''-'', r)"
  using dropWhile_spaces [of r k] by (simp add: marker_at_def)

lemma marker_at_number:
  assumes "ds \<noteq> []" "list_all is_digit ds" "take 1 r \<noteq> '' ''"
  shows "marker_at (ds @ ''.'' @ replicate (Suc k) CHR '' '' @ r) = Some (ds @ ''.'', r)"
proof -
  from assms(1) obtain d ds' where ds: "ds = d # ds'" by (cases ds) auto
  with assms(2) have d: "is_digit d" and ds': "\<forall>x \<in> set ds'. is_digit x"
    by (simp_all add: list_all_iff)
  have nd: "d \<noteq> CHR ''-''" using d not_digit by auto
  have tw: "takeWhile is_digit (ds' @ CHR ''.'' # replicate (Suc k) CHR '' '' @ r) = ds'"
    using ds' not_digit by (simp add: takeWhile_append2)
  have dw: "dropWhile is_digit (ds' @ CHR ''.'' # replicate (Suc k) CHR '' '' @ r)
              = CHR ''.'' # replicate (Suc k) CHR '' '' @ r"
    using ds' not_digit by (simp add: dropWhile_append2)
  show ?thesis
    using d nd dropWhile_spaces [OF assms(3), of k]
    by (simp add: marker_at_def ds tw dw del: replicate_Suc) (simp)
qed

text \<open>The shape of a match: a marker, one or more spaces, and a rest that starts with no space.\<close>

lemma marker_at_shape:
  assumes "marker_at s = Some (m, r)"
  shows "(m = ''-'' \<or> (\<exists>ds. ds \<noteq> [] \<and> list_all is_digit ds \<and> m = ds @ ''.''))
         \<and> (\<exists>k. s = m @ replicate (Suc k) CHR '' '' @ r) \<and> take 1 r \<noteq> '' ''"
proof (cases s)
  case Nil
  with assms show ?thesis by (simp add: marker_at_def)
next
  case (Cons x xs)
  show ?thesis
  proof (cases "x = CHR ''-''")
    case True
    with Cons assms obtain ys where xs: "xs = CHR '' '' # ys" and m: "m = ''-''" and r: "r = dropWhile sp ys"
      by (cases xs) (auto simp: marker_at_def split: if_splits)
    from dropWhile_sp_decomp [of ys] obtain k where "ys = replicate k CHR '' '' @ r"
      unfolding r by blast
    then have "s = m @ replicate (Suc k) CHR '' '' @ r" using Cons True xs m by simp
    then have "\<exists>k. s = m @ replicate (Suc k) CHR '' '' @ r" ..
    moreover have "take 1 r \<noteq> '' ''" unfolding r by (rule dropWhile_sp_start)
    ultimately show ?thesis using m by simp
  next
    case False
    with Cons assms obtain zs where d: "is_digit x"
      and dz: "dropWhile is_digit xs = CHR ''.'' # zs" and z: "take 1 zs = '' ''"
      and m: "m = x # takeWhile is_digit xs @ ''.''" and rz: "r = dropWhile sp zs"
      by (auto simp: marker_at_def split: if_splits list.splits)
    from z obtain ys where zs: "zs = CHR '' '' # ys" by (cases zs) auto
    have dw: "dropWhile is_digit xs = CHR ''.'' # CHR '' '' # ys" using dz zs by simp
    have r: "r = dropWhile sp ys" using rz zs by simp
    from dropWhile_sp_decomp [of ys] obtain k where k: "ys = replicate k CHR '' '' @ r"
      unfolding r by blast
    have "xs = takeWhile is_digit xs @ CHR ''.'' # CHR '' '' # ys"
      using dw by (metis takeWhile_dropWhile_id)
    then have "s = m @ replicate (Suc k) CHR '' '' @ r"
      using Cons m k by simp
    then have a: "\<exists>k. s = m @ replicate (Suc k) CHR '' '' @ r" ..
    have "list_all is_digit (x # takeWhile is_digit xs)"
      using d by (auto simp: list_all_iff dest: set_takeWhileD)
    then have "x # takeWhile is_digit xs \<noteq> [] \<and> list_all is_digit (x # takeWhile is_digit xs)
        \<and> m = (x # takeWhile is_digit xs) @ ''.''" using m by simp
    then have b: "\<exists>ds. ds \<noteq> [] \<and> list_all is_digit ds \<and> m = ds @ ''.''" by (rule exI)
    have c: "take 1 r \<noteq> '' ''" unfolding r by (rule dropWhile_sp_start)
    from a b c show ?thesis by (intro conjI disjI2)
  qed
qed

lemma marker_at_single_space:
  assumes "marker_at s = Some (m, r)" and "take 1 r' \<noteq> '' ''"
  shows "marker_at (m @ '' '' @ r') = Some (m, r')"
proof -
  from marker_at_shape [OF assms(1)]
  have "m = ''-'' \<or> (\<exists>ds. ds \<noteq> [] \<and> list_all is_digit ds \<and> m = ds @ ''.'')" by blast
  then show ?thesis
  proof
    assume "m = ''-''"
    then show ?thesis using marker_at_dash [OF assms(2), of 0] by simp
  next
    assume "\<exists>ds. ds \<noteq> [] \<and> list_all is_digit ds \<and> m = ds @ ''.''"
    then obtain ds where "ds \<noteq> []" "list_all is_digit ds" "m = ds @ ''.''" by blast
    then show ?thesis using marker_at_number [OF _ _ assms(2), of ds 0] by simp
  qed
qed

lemma postprocess_Nil [simp]: "postprocess [] = []"
  by (subst postprocess_unfold) (simp add: marker_at_def)

lemma postprocess_start: "take 1 (postprocess s) = take 1 s"
proof (cases "marker_at s")
  case None
  then show ?thesis by (subst postprocess_unfold) (simp split: list.splits)
next
  case (Some p)
  obtain m r where p: "p = (m, r)" by (cases p)
  from marker_at_shape [OF Some [unfolded p]] obtain k where
    "m \<noteq> []" "s = m @ replicate (Suc k) CHR '' '' @ r" by auto
  then have "take 1 s = take 1 m" by (cases m) auto
  moreover have "postprocess s = m @ '' '' @ postprocess r"
    using Some p by (subst postprocess_unfold) simp
  ultimately show ?thesis using \<open>m \<noteq> []\<close> by (cases m) auto
qed

lemma postprocess_no_match:
  "marker_at (x # xs) = None \<Longrightarrow> postprocess (x # xs) = x # postprocess xs"
  by (subst postprocess_unfold) simp

lemma postprocess_match:
  "marker_at s = Some (m, r) \<Longrightarrow> postprocess s = m @ '' '' @ postprocess r"
  by (subst postprocess_unfold) simp

lemma marker_at_not_marker_start:
  "x \<noteq> CHR ''-'' \<Longrightarrow> \<not> is_digit x \<Longrightarrow> marker_at (x # xs) = None"
  by (simp add: marker_at_def)

lemma marker_at_dash_iff:
  "marker_at (CHR ''-'' # xs) = None \<longleftrightarrow> take 1 xs \<noteq> '' ''"
  by (simp add: marker_at_def)

lemma marker_at_digit_iff:
  "is_digit x \<Longrightarrow>
   marker_at (x # xs) = None \<longleftrightarrow>
     (\<forall>ys. dropWhile is_digit xs = CHR ''.'' # ys \<longrightarrow> take 1 ys \<noteq> '' '')"
proof (cases "dropWhile is_digit xs")
  case Nil
  assume "is_digit x"
  then have "x \<noteq> CHR ''-''" using not_digit by auto
  with Nil \<open>is_digit x\<close> show ?thesis
    by (simp add: marker_at_def del: dropWhile_eq_Nil_conv)
next
  case (Cons y ys)
  assume "is_digit x"
  then have "x \<noteq> CHR ''-''" using not_digit by auto
  with Cons \<open>is_digit x\<close> show ?thesis
    by (auto simp: marker_at_def)
qed

lemma dropWhile_digit_start: "dropWhile is_digit xs = y # ys \<Longrightarrow> \<not> is_digit y"
  by (metis hd_dropWhile list.distinct(1) list.sel(1))

lemma dropWhile_digits_append:
  assumes "list_all is_digit ds" and "\<forall>y ys. r = y # ys \<longrightarrow> \<not> is_digit y"
  shows "dropWhile is_digit (ds @ r) = r"
proof -
  have "dropWhile is_digit r = r" using assms(2) by (cases r) auto
  then show ?thesis using assms(1) by (simp add: list_all_iff dropWhile_append2)
qed

lemma postprocess_digits:
  assumes "list_all is_digit ds"
    and "\<forall>y ys. r = y # ys \<longrightarrow> \<not> is_digit y"
    and "\<forall>ys. r = CHR ''.'' # ys \<longrightarrow> take 1 ys \<noteq> '' ''"
  shows "postprocess (ds @ r) = ds @ postprocess r"
  using assms(1)
proof (induction ds)
  case Nil
  show ?case by simp
next
  case (Cons d ds)
  then have d: "is_digit d" and ds: "list_all is_digit ds" by simp_all
  have "dropWhile is_digit (ds @ r) = r" using dropWhile_digits_append [OF ds assms(2)] .
  then have "marker_at (d # ds @ r) = None"
    using assms(3) by (simp add: marker_at_digit_iff [OF d])
  then have "postprocess (d # ds @ r) = d # postprocess (ds @ r)"
    by (rule postprocess_no_match)
  then show ?case using Cons.IH [OF ds] by simp
qed

lemma marker_at_after_postprocess:
  assumes "marker_at (x # xs) = None"
  shows "marker_at (x # postprocess xs) = None"
proof (cases "x = CHR ''-''")
  case True
  with assms have "take 1 xs \<noteq> '' ''" by (simp add: marker_at_dash_iff)
  then have "take 1 (postprocess xs) \<noteq> '' ''" using postprocess_start [of xs] by simp
  with True show ?thesis by (simp add: marker_at_dash_iff)
next
  case False
  show ?thesis
  proof (cases "is_digit x")
    case nd: False
    with False show ?thesis by (rule marker_at_not_marker_start)
  next
    case d: True
    define tw where "tw = takeWhile is_digit xs"
    define r where "r = dropWhile is_digit xs"
    have xs: "xs = tw @ r" by (simp add: tw_def r_def)
    have tw: "list_all is_digit tw" by (auto simp: tw_def list_all_iff dest: set_takeWhileD)
    have r1: "\<forall>y ys. r = y # ys \<longrightarrow> \<not> is_digit y"
      unfolding r_def using dropWhile_digit_start by blast
    have r2: "\<forall>ys. r = CHR ''.'' # ys \<longrightarrow> take 1 ys \<noteq> '' ''"
      using assms unfolding r_def by (simp add: marker_at_digit_iff [OF d])
    have pp: "postprocess xs = tw @ postprocess r"
      unfolding xs by (rule postprocess_digits [OF tw r1 r2])
    have p1: "\<forall>y ys. postprocess r = y # ys \<longrightarrow> \<not> is_digit y"
    proof (intro allI impI)
      fix y ys assume "postprocess r = y # ys"
      then have "take 1 r = [y]" using postprocess_start [of r] by simp
      then obtain zs where "r = y # zs" by (cases r) auto
      with r1 show "\<not> is_digit y" by blast
    qed
    have p2: "\<forall>ys. postprocess r = CHR ''.'' # ys \<longrightarrow> take 1 ys \<noteq> '' ''"
    proof (intro allI impI)
      fix ys assume a: "postprocess r = CHR ''.'' # ys"
      then have "take 1 r = ''.''" using postprocess_start [of r] by simp
      then obtain zs where zs: "r = CHR ''.'' # zs" by (cases r) auto
      have "marker_at (CHR ''.'' # zs) = None"
        using not_digit by (intro marker_at_not_marker_start) auto
      then have "postprocess r = CHR ''.'' # postprocess zs"
        unfolding zs by (rule postprocess_no_match)
      with a have "ys = postprocess zs" by simp
      then have "take 1 ys = take 1 zs" using postprocess_start [of zs] by simp
      with r2 zs show "take 1 ys \<noteq> '' ''" by simp
    qed
    have "dropWhile is_digit (tw @ postprocess r) = postprocess r"
      using dropWhile_digits_append [OF tw p1] .
    then show ?thesis using p2 by (simp add: pp marker_at_digit_iff [OF d])
  qed
qed

lemma postprocess_twice: "postprocess (postprocess s) = postprocess s"
proof (induction s rule: length_induct)
  case (1 s)
  show ?case
  proof (cases "marker_at s")
    case None
    show ?thesis
    proof (cases s)
      case Nil
      then show ?thesis by simp
    next
      case (Cons x xs)
      with None have n: "marker_at (x # xs) = None" by simp
      then have p: "postprocess (x # xs) = x # postprocess xs" by (rule postprocess_no_match)
      have "marker_at (x # postprocess xs) = None" using n by (rule marker_at_after_postprocess)
      then have "postprocess (x # postprocess xs) = x # postprocess (postprocess xs)"
        by (rule postprocess_no_match)
      moreover have "postprocess (postprocess xs) = postprocess xs"
        using 1 Cons by simp
      ultimately show ?thesis using p Cons by simp
    qed
  next
    case (Some p)
    obtain m r where p: "p = (m, r)" by (cases p)
    have mr: "marker_at s = Some (m, r)" using Some p by simp
    have ps: "postprocess s = m @ '' '' @ postprocess r" using mr by (rule postprocess_match)
    have "take 1 r \<noteq> '' ''" using marker_at_shape [OF mr] by blast
    then have "take 1 (postprocess r) \<noteq> '' ''" using postprocess_start [of r] by simp
    then have "marker_at (m @ '' '' @ postprocess r) = Some (m, postprocess r)"
      by (rule marker_at_single_space [OF mr])
    then have "postprocess (m @ '' '' @ postprocess r) = m @ '' '' @ postprocess (postprocess r)"
      by (rule postprocess_match)
    moreover have "postprocess (postprocess r) = postprocess r"
      using 1 marker_at_shorter [OF mr] by simp
    ultimately show ?thesis using ps by simp
  qed
qed

lemma marker_at_start:
  assumes "marker_at t = Some (m, r)"
  shows "\<exists>y ys. t = y # ys \<and> (y = CHR ''-'' \<or> is_digit y)"
proof (cases t)
  case Nil
  with assms show ?thesis by (simp add: marker_at_def)
next
  case (Cons y ys)
  with assms show ?thesis by (auto simp: marker_at_def split: if_splits)
qed

lemma marker_at_intro:
  assumes "m = ''-'' \<or> (\<exists>ds. ds \<noteq> [] \<and> list_all is_digit ds \<and> m = ds @ ''.'')"
    and "take 1 r \<noteq> '' ''"
  shows "marker_at (m @ replicate (Suc k) CHR '' '' @ r) = Some (m, r)"
  using assms(1)
proof
  assume "m = ''-''"
  then show ?thesis using marker_at_dash [OF assms(2), of k] by simp
next
  assume "\<exists>ds. ds \<noteq> [] \<and> list_all is_digit ds \<and> m = ds @ ''.''"
  then obtain ds where "ds \<noteq> []" "list_all is_digit ds" "m = ds @ ''.''" by blast
  then show ?thesis using marker_at_number [OF _ _ assms(2), of ds k] by simp
qed

lemma take1_append: "take 1 r \<noteq> '' '' \<Longrightarrow> take 1 t \<noteq> '' '' \<Longrightarrow> take 1 (r @ t) \<noteq> '' ''"
  by (cases r) simp_all

lemma postprocess_all_digits: "list_all is_digit ds \<Longrightarrow> postprocess ds = ds"
  using postprocess_digits [of ds "[]"] by simp

lemma postprocess_append:
  assumes t: "marker_at t = Some (mt, rt)"
  shows "postprocess (a @ t) = postprocess a @ postprocess t"
proof (induction a rule: length_induct)
  case (1 a)
  from marker_at_start [OF t] obtain y ys where ty: "t = y # ys" and y: "y = CHR ''-'' \<or> is_digit y"
    by blast
  have t1: "take 1 t \<noteq> '' ''" using ty y not_digit by auto
  show ?case
  proof (cases "marker_at a")
    case (Some p)
    obtain m r where mr: "marker_at a = Some (m, r)" using Some by (cases p) auto
    from marker_at_shape [OF mr] obtain k where
      m: "m = ''-'' \<or> (\<exists>ds. ds \<noteq> [] \<and> list_all is_digit ds \<and> m = ds @ ''.'')"
      and a: "a = m @ replicate (Suc k) CHR '' '' @ r" and r1: "take 1 r \<noteq> '' ''" by blast
    have "marker_at (m @ replicate (Suc k) CHR '' '' @ (r @ t)) = Some (m, r @ t)"
      using m take1_append [OF r1 t1] by (rule marker_at_intro)
    then have "marker_at (a @ t) = Some (m, r @ t)" by (simp add: a)
    then have "postprocess (a @ t) = m @ '' '' @ postprocess (r @ t)" by (rule postprocess_match)
    moreover have "postprocess (r @ t) = postprocess r @ postprocess t"
      using 1 marker_at_shorter [OF mr] by simp
    moreover have "postprocess a = m @ '' '' @ postprocess r" using mr by (rule postprocess_match)
    ultimately show ?thesis by simp
  next
    case None
    show ?thesis
    proof (cases a)
      case Nil
      then show ?thesis by simp
    next
      case (Cons x a')
      have na: "marker_at (x # a') = None" using None Cons by simp
      have pa: "postprocess a = x # postprocess a'" unfolding Cons using na by (rule postprocess_no_match)
      show ?thesis
      proof (cases "list_all is_digit a \<and> is_digit y")
        case True
        then have y': "y \<noteq> CHR ''-''" using not_digit by auto
        from marker_at_shape [OF t] obtain k where
          mt: "mt = ''-'' \<or> (\<exists>ds. ds \<noteq> [] \<and> list_all is_digit ds \<and> mt = ds @ ''.'')"
          and tt: "t = mt @ replicate (Suc k) CHR '' '' @ rt" and r1: "take 1 rt \<noteq> '' ''" by blast
        from mt tt ty y' obtain ds where ds: "ds \<noteq> []" "list_all is_digit ds" "mt = ds @ ''.''"
          by auto
        have "marker_at ((a @ ds) @ ''.'' @ replicate (Suc k) CHR '' '' @ rt) = Some ((a @ ds) @ ''.'', rt)"
          using ds True r1 by (intro marker_at_number) simp_all
        then have "marker_at (a @ t) = Some (a @ mt, rt)" using tt ds by simp
        then have "postprocess (a @ t) = (a @ mt) @ '' '' @ postprocess rt" by (rule postprocess_match)
        moreover have "postprocess t = mt @ '' '' @ postprocess rt" using t by (rule postprocess_match)
        moreover have "postprocess a = a" using True postprocess_all_digits by blast
        ultimately show ?thesis by simp
      next
        case False
        have "marker_at (x # a' @ t) = None"
        proof (cases "x = CHR ''-''")
          case True
          with na have "take 1 a' \<noteq> '' ''" by (simp add: marker_at_dash_iff)
          then have "take 1 (a' @ t) \<noteq> '' ''" using t1 by (rule take1_append)
          with True show ?thesis by (simp add: marker_at_dash_iff)
        next
          case nx: False
          show ?thesis
          proof (cases "is_digit x")
            case nd: False
            with nx show ?thesis by (rule marker_at_not_marker_start)
          next
            case d: True
            have "\<forall>zs. dropWhile is_digit (a' @ t) = CHR ''.'' # zs \<longrightarrow> take 1 zs \<noteq> '' ''"
            proof (intro allI impI)
              fix zs assume dz: "dropWhile is_digit (a' @ t) = CHR ''.'' # zs"
              show "take 1 zs \<noteq> '' ''"
              proof (cases "dropWhile is_digit a'")
                case Nil
                then have all: "list_all is_digit a'" by (simp add: list_all_iff)
                then have "list_all is_digit a" using d Cons by simp
                with False have "\<not> is_digit y" by simp
                with y have "y = CHR ''-''" by simp
                then have "dropWhile is_digit t = t" using ty not_digit by simp
                then have "dropWhile is_digit (a' @ t) = t"
                  using all by (simp add: list_all_iff dropWhile_append2)
                with dz ty \<open>y = CHR ''-''\<close> show ?thesis by simp
              next
                case (Cons w ws)
                then have "\<exists>v \<in> set a'. \<not> is_digit v"
                  by (metis dropWhile_eq_Nil_conv list.distinct(1))
                then have "dropWhile is_digit (a' @ t) = dropWhile is_digit a' @ t"
                  by (metis dropWhile_append1)
                with dz Cons have w: "w = CHR ''.''" and zs: "zs = ws @ t" by simp_all
                from na have "take 1 ws \<noteq> '' ''"
                  using Cons w by (simp add: marker_at_digit_iff [OF d])
                then show ?thesis unfolding zs using t1 by (rule take1_append)
              qed
            qed
            then show ?thesis by (simp add: marker_at_digit_iff [OF d])
          qed
        qed
        then have "postprocess (x # a' @ t) = x # postprocess (a' @ t)" by (rule postprocess_no_match)
        moreover have "postprocess (a' @ t) = postprocess a' @ postprocess t"
          using 1 Cons by simp
        ultimately show ?thesis using pa Cons by simp
      qed
    qed
  qed
qed

lemma postprocess_length: "length (postprocess s) \<le> length s"
proof (induction s rule: length_induct)
  case (1 s)
  show ?case
  proof (cases "marker_at s")
    case None
    show ?thesis
    proof (cases s)
      case Nil
      then show ?thesis by simp
    next
      case (Cons x xs)
      with None have "postprocess s = x # postprocess xs" using postprocess_no_match by simp
      moreover have "length (postprocess xs) \<le> length xs" using 1 Cons by simp
      ultimately show ?thesis using Cons by simp
    qed
  next
    case (Some p)
    obtain m r where mr: "marker_at s = Some (m, r)" using Some by (cases p) auto
    from marker_at_shape [OF mr] obtain k where s: "s = m @ replicate (Suc k) CHR '' '' @ r" by blast
    have "length (postprocess r) \<le> length r" using 1 marker_at_shorter [OF mr] by simp
    moreover have "postprocess s = m @ '' '' @ postprocess r" using mr by (rule postprocess_match)
    moreover have "length s = length m + Suc k + length r" by (subst s) simp
    ultimately show ?thesis by simp
  qed
qed

lemma postprocess_marker_context:
  assumes "m = ''-'' \<or> (\<exists>ds. ds \<noteq> [] \<and> list_all is_digit ds \<and> m = ds @ ''.'')"
    and "take 1 b \<noteq> '' ''"
  shows "postprocess (a @ m @ replicate (Suc k) CHR '' '' @ b) = postprocess a @ m @ '' '' @ postprocess b"
proof -
  have t: "marker_at (m @ replicate (Suc k) CHR '' '' @ b) = Some (m, b)"
    using assms by (rule marker_at_intro)
  show ?thesis
    using postprocess_append [OF t, of a] postprocess_match [OF t] by simp
qed

lemma postprocess_changes:
  assumes m: "m = ''-'' \<or> (\<exists>ds. ds \<noteq> [] \<and> list_all is_digit ds \<and> m = ds @ ''.'')"
    and b: "take 1 b \<noteq> '' ''"
  shows "postprocess (a @ m @ replicate (Suc (Suc k)) CHR '' '' @ b)
        = postprocess a @ m @ '' '' @ postprocess b
      \<and> postprocess (a @ m @ replicate (Suc (Suc k)) CHR '' '' @ b)
        \<noteq> a @ m @ replicate (Suc (Suc k)) CHR '' '' @ b"
proof
  show eq: "postprocess (a @ m @ replicate (Suc (Suc k)) CHR '' '' @ b)
      = postprocess a @ m @ '' '' @ postprocess b"
    using m b by (rule postprocess_marker_context)
  have "length (postprocess (a @ m @ replicate (Suc (Suc k)) CHR '' '' @ b))
          = length (postprocess a) + length m + 1 + length (postprocess b)"
    by (subst eq) simp
  also have "\<dots> \<le> length a + length m + 1 + length b"
    using postprocess_length [of a] postprocess_length [of b] by simp
  also have "\<dots> < length (a @ m @ replicate (Suc (Suc k)) CHR '' '' @ b)" by simp
  finally show "postprocess (a @ m @ replicate (Suc (Suc k)) CHR '' '' @ b)
      \<noteq> a @ m @ replicate (Suc (Suc k)) CHR '' '' @ b"
    by (metis less_irrefl)
qed

section \<open>The separator expression\<close>

















section \<open>The claims\<close>

subsection \<open>Claim C1\<close>

text \<open>
  Claim C1, as stated, at a table figure that holds a caption and no table: the claim gives
  the empty string; the code returns two line feeds followed by the converted caption,
  whatever the converter returns for it (here the converter hands its input back).
\<close>

theorem wpBlockTable_caption_without_table:
  "wpBlockTable_filter caption_only_table
   \<and> querySelector_tag caption_only_table ''table'' = None
   \<and> wpBlockTable_replacement \<lparr>turndown = id\<rparr>
        ([LF, LF] @ ''<figcaption>'' @ [LF, LF] @ ''Totals'' @ [LF, LF] @ ''</figcaption>'' @ [LF, LF])
        caption_only_table
       = [LF, LF] @ ''<figcaption>Totals</figcaption>''
   \<and> wpBlockTable_replacement \<lparr>turndown = id\<rparr>
        ([LF, LF] @ ''<figcaption>'' @ [LF, LF] @ ''Totals'' @ [LF, LF] @ ''</figcaption>'' @ [LF, LF])
        caption_only_table
       \<noteq> []"
  by code_simp

text \<open>
  Claim C1, amended. For every figure flagged as a table wrapper none of whose descendants is
  a table element (an element named \<open>table\<close> in any case of the letters, which is what the
  selector matches): when no descendant is a figcaption element the replacement is the empty
  string; when one is, the replacement is two line feeds followed by the conversion of the
  markup of the first figcaption element in document order, hence not empty.
\<close>

theorem wpBlockTable_without_table:
  "wpBlockTable_filter node
   \<and> (\<forall>d \<in> set (descendants node). map to_lower (nodeName d) \<noteq> ''table'') \<longrightarrow>
     ((\<forall>d \<in> set (descendants node). map to_lower (nodeName d) \<noteq> ''figcaption'') \<longrightarrow>
        wpBlockTable_replacement svc content node = [])
     \<and> ((\<exists>d \<in> set (descendants node). map to_lower (nodeName d) = ''figcaption'') \<longrightarrow>
          (\<exists>pre fc post.
              descendants node = pre @ fc # post
              \<and> map to_lower (nodeName fc) = ''figcaption''
              \<and> (\<forall>d \<in> set pre. map to_lower (nodeName d) \<noteq> ''figcaption'')
              \<and> querySelector_tag node ''figcaption'' = Some fc
              \<and> wpBlockTable_replacement svc content node = [LF, LF] @ turndown svc (outerHTML fc))
          \<and> wpBlockTable_replacement svc content node \<noteq> [])"
proof (intro impI conjI)
  assume h: "wpBlockTable_filter node
               \<and> (\<forall>d \<in> set (descendants node). map to_lower (nodeName d) \<noteq> ''table'')"
  then have t: "querySelector_tag node ''table'' = None"
    unfolding querySelector_tag_None lower_names by simp
  {
    assume "\<forall>d \<in> set (descendants node). map to_lower (nodeName d) \<noteq> ''figcaption''"
    then have "querySelector_tag node ''figcaption'' = None"
      unfolding querySelector_tag_None lower_names by simp
    with t show "wpBlockTable_replacement svc content node = []"
      by (simp add: wpBlockTable_replacement_def)
  }
  assume "\<exists>d \<in> set (descendants node). map to_lower (nodeName d) = ''figcaption''"
  then have "\<exists>d \<in> set (descendants node). map to_lower (nodeName d) = map to_lower ''figcaption''"
    unfolding lower_names .
  from querySelector_tag_exists [OF this] obtain fc
    where q: "querySelector_tag node ''figcaption'' = Some fc" by blast
  from querySelector_tag_Some [OF q, unfolded lower_names] obtain pre post
    where d: "descendants node = pre @ fc # post"
      and n: "map to_lower (nodeName fc) = ''figcaption''"
      and f: "\<forall>d \<in> set pre. map to_lower (nodeName d) \<noteq> ''figcaption''"
    by (elim exE conjE)
  from t q have r: "wpBlockTable_replacement svc content node = [LF, LF] @ turndown svc (outerHTML fc)"
    by (simp add: wpBlockTable_replacement_def)
  from d n f q r
  show "\<exists>pre fc post.
          descendants node = pre @ fc # post
          \<and> map to_lower (nodeName fc) = ''figcaption''
          \<and> (\<forall>d \<in> set pre. map to_lower (nodeName d) \<noteq> ''figcaption'')
          \<and> querySelector_tag node ''figcaption'' = Some fc
          \<and> wpBlockTable_replacement svc content node = [LF, LF] @ turndown svc (outerHTML fc)"
    by - (rule exI [of _ pre], rule exI [of _ fc], rule exI [of _ post], (intro conjI; assumption))
  from r show "wpBlockTable_replacement svc content node \<noteq> []" by simp
qed

text \<open>
  The amended claim at three table figures without a table: one without caption, one with a
  caption, and one whose caption is a foreign element named in lower case.
\<close>

theorem wpBlockTable_without_table_witness:
  "wpBlockTable_replacement \<lparr>turndown = id\<rparr> ''no table here'' empty_table_figure = []
   \<and> wpBlockTable_replacement \<lparr>turndown = id\<rparr> ''children'' caption_only_table
       = [LF, LF] @ ''<figcaption>Totals</figcaption>''
   \<and> wpBlockTable_replacement \<lparr>turndown = id\<rparr> ''children'' svg_caption_table
       = [LF, LF] @ ''<figcaption>Totals</figcaption>''"
proof (intro conjI)
  have f: "wpBlockTable_filter empty_table_figure" by code_simp
  have t: "\<forall>d \<in> set (descendants empty_table_figure). map to_lower (nodeName d) \<noteq> ''table''"
    unfolding empty_table_figure_def by code_simp
  have c: "\<forall>d \<in> set (descendants empty_table_figure). map to_lower (nodeName d) \<noteq> ''figcaption''"
    unfolding empty_table_figure_def by code_simp
  from wpBlockTable_without_table [where node = empty_table_figure, THEN mp, OF conjI [OF f t],
      THEN conjunct1, THEN mp, OF c]
  show "wpBlockTable_replacement \<lparr>turndown = id\<rparr> ''no table here'' empty_table_figure = []" .
next
  let ?fc = "Node ''FIGCAPTION'' [] [Node ''#text'' [] [] ''Totals'' [] None] []
           ''<figcaption>Totals</figcaption>'' None"
  have f: "wpBlockTable_filter caption_only_table" by code_simp
  have t: "\<forall>d \<in> set (descendants caption_only_table). map to_lower (nodeName d) \<noteq> ''table''"
    unfolding caption_only_table_def by code_simp
  have c: "\<exists>d \<in> set (descendants caption_only_table). map to_lower (nodeName d) = ''figcaption''"
    unfolding caption_only_table_def by code_simp
  have q: "querySelector_tag caption_only_table ''figcaption'' = Some ?fc" by code_simp
  from wpBlockTable_without_table [where node = caption_only_table
      and svc = "\<lparr>turndown = id\<rparr>" and content = "''children''",
      THEN mp, OF conjI [OF f t], THEN conjunct2, THEN mp, OF c, THEN conjunct1]
  show "wpBlockTable_replacement \<lparr>turndown = id\<rparr> ''children'' caption_only_table
          = [LF, LF] @ ''<figcaption>Totals</figcaption>''"
    unfolding q by auto
next
  let ?fc = "Node ''figcaption'' [] [Node ''#text'' [] [] ''Totals'' [] None] []
           ''<figcaption>Totals</figcaption>'' None"
  have f: "wpBlockTable_filter svg_caption_table" by code_simp
  have t: "\<forall>d \<in> set (descendants svg_caption_table). map to_lower (nodeName d) \<noteq> ''table''"
    unfolding svg_caption_table_def by code_simp
  have c: "\<exists>d \<in> set (descendants svg_caption_table). map to_lower (nodeName d) = ''figcaption''"
    unfolding svg_caption_table_def by code_simp
  have q: "querySelector_tag svg_caption_table ''figcaption'' = Some ?fc" by code_simp
  from wpBlockTable_without_table [where node = svg_caption_table
      and svc = "\<lparr>turndown = id\<rparr>" and content = "''children''",
      THEN mp, OF conjI [OF f t], THEN conjunct2, THEN mp, OF c, THEN conjunct1]
  show "wpBlockTable_replacement \<lparr>turndown = id\<rparr> ''children'' svg_caption_table
          = [LF, LF] @ ''<figcaption>Totals</figcaption>''"
    unfolding q by auto
qed

subsection \<open>Claim C2\<close>




subsection \<open>Claim C3\<close>

text \<open>
  Claim C3, at a captioned figure whose converted children start and end with a blank line
  (a block element followed by the caption, as the caption rule emits it): the padded
  result holds four line feeds after \<open><figure>\<close> and four before \<open></figure>\<close>;
  \<open>replace\<close> with a string pattern collapses the first run only, and the second run of
  four line feeds is still in the result. A figure without a caption returns its children.
\<close>

theorem figure_second_run_remains:
  "figure_filter captioned_embed
   \<and> captioned_embed_content
     = [LF, LF] @ ''https://example.com/'' @ figcaption_replacement ''cap'' captioned_embed
   \<and> figure_replacement captioned_embed_content captioned_embed
     = [LF, LF] @ ''<figure>'' @ [LF, LF] @ ''https://example.com/'' @ [LF, LF] @ ''<figcaption>''
         @ [LF, LF] @ ''cap'' @ [LF, LF] @ ''</figcaption>'' @ [LF, LF, LF, LF] @ ''</figure>''
         @ [LF, LF]
   \<and> str_includes (figure_replacement captioned_embed_content captioned_embed) [LF, LF, LF, LF]
   \<and> figure_replacement ''![](a.png)'' plain_figure = ''![](a.png)''"
  by code_simp

subsection \<open>Claim C4\<close>

text \<open>
  Claim C4, as stated, at an address in which the marker occurs twice: the text after the
  first \<open>watch?v=\<close> holds no ampersand, so the claim gives all of it,
  \<open>ABCwatch?v=DEF\<close>; \<open>split\<close> cuts at every marker and the code returns \<open>ABC\<close>.
\<close>

theorem extractYoutubeVideoId_second_marker:
  "extractYoutubeVideoId ''https://www.youtube.com/watch?v=ABCwatch?v=DEF'' = Some ''ABC''
   \<and> extractYoutubeVideoId ''https://www.youtube.com/watch?v=ABCwatch?v=DEF'' \<noteq> Some ''ABCwatch?v=DEF''"
  by code_simp

text \<open>
  Claim C4, amended. For every address: when it contains \<open>watch?v=\<close>, the identifier is
  the text after the first \<open>watch?v=\<close> up to the next ampersand or the next
  \<open>watch?v=\<close>, whichever comes first (to the end when neither follows); else, when it
  contains \<open>youtu.be/\<close>, the text after the first \<open>youtu.be/\<close> up to the next question
  mark or the next \<open>youtu.be/\<close>; else it is empty. For every video-embed figure whose
  wrapper yields an empty identifier the rule returns the converted children. The three
  addresses of the claim give \<open>ABC123\<close>, \<open>XYZ789\<close> and the empty identifier.
\<close>

theorem extractYoutubeVideoId_shape:
  "(\<forall>a r. url = a @ ''watch?v='' @ r
           \<and> (\<forall>a' r'. url = a' @ ''watch?v='' @ r' \<longrightarrow> length a \<le> length a') \<longrightarrow>
      (\<exists>seg t. r = seg @ t \<and> extractYoutubeVideoId url = Some seg \<and> CHR ''&'' \<notin> set seg
           \<and> (\<forall>u v. r = u @ ''watch?v='' @ v \<longrightarrow> length seg \<le> length u)
           \<and> (t = [] \<or> take 1 t = ''&'' \<or> take 8 t = ''watch?v='')))
   \<and> (\<forall>a r. (\<nexists>a r. url = a @ ''watch?v='' @ r) \<and> url = a @ ''youtu.be/'' @ r
           \<and> (\<forall>a' r'. url = a' @ ''youtu.be/'' @ r' \<longrightarrow> length a \<le> length a') \<longrightarrow>
      (\<exists>seg t. r = seg @ t \<and> extractYoutubeVideoId url = Some seg \<and> CHR ''?'' \<notin> set seg
           \<and> (\<forall>u v. r = u @ ''youtu.be/'' @ v \<longrightarrow> length seg \<le> length u)
           \<and> (t = [] \<or> take 1 t = ''?'' \<or> take 9 t = ''youtu.be/'')))
   \<and> ((\<nexists>a r. url = a @ ''watch?v='' @ r) \<and> (\<nexists>a r. url = a @ ''youtu.be/'' @ r) \<longrightarrow>
        extractYoutubeVideoId url = Some [])
   \<and> (\<forall>wrapper. wpEmbedYoutube_filter node
           \<and> querySelector_class node ''wp-block-embed__wrapper'' = Some wrapper
           \<and> extractYoutubeVideoId (trim (textContent wrapper)) = Some [] \<longrightarrow>
        wpEmbedYoutube_replacement content node = content)
   \<and> extractYoutubeVideoId ''https://www.youtube.com/watch?v=ABC123&feature=x'' = Some ''ABC123''
   \<and> extractYoutubeVideoId ''https://youtu.be/XYZ789?t=5'' = Some ''XYZ789''
   \<and> extractYoutubeVideoId ''https://example.com/video'' = Some []"
proof (intro conjI allI impI)
  fix a r
  assume "url = a @ ''watch?v='' @ r \<and> (\<forall>a' r'. url = a' @ ''watch?v='' @ r' \<longrightarrow> length a \<le> length a')"
  then show "\<exists>seg t. r = seg @ t \<and> extractYoutubeVideoId url = Some seg \<and> CHR ''&'' \<notin> set seg
           \<and> (\<forall>u v. r = u @ ''watch?v='' @ v \<longrightarrow> length seg \<le> length u)
           \<and> (t = [] \<or> take 1 t = ''&'' \<or> take 8 t = ''watch?v='')"
    using extract_watch [of url a r] by blast
next
  fix a r
  assume "(\<nexists>a r. url = a @ ''watch?v='' @ r) \<and> url = a @ ''youtu.be/'' @ r
           \<and> (\<forall>a' r'. url = a' @ ''youtu.be/'' @ r' \<longrightarrow> length a \<le> length a')"
  then show "\<exists>seg t. r = seg @ t \<and> extractYoutubeVideoId url = Some seg \<and> CHR ''?'' \<notin> set seg
           \<and> (\<forall>u v. r = u @ ''youtu.be/'' @ v \<longrightarrow> length seg \<le> length u)
           \<and> (t = [] \<or> take 1 t = ''?'' \<or> take 9 t = ''youtu.be/'')"
    using extract_short [of url a r] by blast
next
  assume "(\<nexists>a r. url = a @ ''watch?v='' @ r) \<and> (\<nexists>a r. url = a @ ''youtu.be/'' @ r)"
  then show "extractYoutubeVideoId url = Some []" using extract_neither by blast
next
  fix wrapper
  assume "wpEmbedYoutube_filter node
           \<and> querySelector_class node ''wp-block-embed__wrapper'' = Some wrapper
           \<and> extractYoutubeVideoId (trim (textContent wrapper)) = Some []"
  then show "wpEmbedYoutube_replacement content node = content"
    by (simp add: wpEmbedYoutube_replacement_def)
next
  show "extractYoutubeVideoId ''https://www.youtube.com/watch?v=ABC123&feature=x'' = Some ''ABC123''"
    by code_simp
  show "extractYoutubeVideoId ''https://youtu.be/XYZ789?t=5'' = Some ''XYZ789''"
    by code_simp
  show "extractYoutubeVideoId ''https://example.com/video'' = Some []"
    by code_simp
qed

theorem extractYoutubeVideoId_shape_witness:
  "(\<exists>seg t. ''ABC123&feature=x'' = seg @ t
       \<and> extractYoutubeVideoId ''https://www.youtube.com/watch?v=ABC123&feature=x'' = Some seg
       \<and> CHR ''&'' \<notin> set seg)
   \<and> (\<exists>seg t. ''XYZ789?t=5'' = seg @ t
       \<and> extractYoutubeVideoId ''https://youtu.be/XYZ789?t=5'' = Some seg
       \<and> CHR ''?'' \<notin> set seg)
   \<and> extractYoutubeVideoId ''https://example.com/video'' = Some []
   \<and> wpEmbedYoutube_replacement ''children'' example_embed = ''children''"
proof (intro conjI)
  let ?u = "''https://www.youtube.com/watch?v=ABC123&feature=x''"
  have c: "cut_at ''watch?v='' ?u = Some (''https://www.youtube.com/'', ''ABC123&feature=x'')"
    by code_simp
  have d: "?u = ''https://www.youtube.com/'' @ ''watch?v='' @ ''ABC123&feature=x''" by simp
  have f: "\<forall>a' r'. ?u = a' @ ''watch?v='' @ r' \<longrightarrow> length ''https://www.youtube.com/'' \<le> length a'"
    using cut_at_first [OF c] by blast
  from extractYoutubeVideoId_shape [of ?u, THEN conjunct1, rule_format, OF conjI [OF d f]]
  show "\<exists>seg t. ''ABC123&feature=x'' = seg @ t \<and> extractYoutubeVideoId ?u = Some seg
          \<and> CHR ''&'' \<notin> set seg"
    by blast
next
  let ?u = "''https://youtu.be/XYZ789?t=5''"
  have n: "\<nexists>a r. ?u = a @ ''watch?v='' @ r"
  proof -
    have "\<not> str_includes ?u ''watch?v=''" by code_simp
    then show ?thesis unfolding str_includes_iff .
  qed
  have c: "cut_at ''youtu.be/'' ?u = Some (''https://'', ''XYZ789?t=5'')" by code_simp
  have d: "?u = ''https://'' @ ''youtu.be/'' @ ''XYZ789?t=5''" by simp
  have f: "\<forall>a' r'. ?u = a' @ ''youtu.be/'' @ r' \<longrightarrow> length ''https://'' \<le> length a'"
    using cut_at_first [OF c] by blast
  from extractYoutubeVideoId_shape [of ?u, THEN conjunct2, THEN conjunct1, rule_format,
      OF conjI [OF n conjI [OF d f]]]
  show "\<exists>seg t. ''XYZ789?t=5'' = seg @ t \<and> extractYoutubeVideoId ?u = Some seg
          \<and> CHR ''?'' \<notin> set seg"
    by blast
next
  let ?u = "''https://example.com/video''"
  have n1: "\<nexists>a r. ?u = a @ ''watch?v='' @ r"
  proof -
    have "\<not> str_includes ?u ''watch?v=''" by code_simp
    then show ?thesis unfolding str_includes_iff .
  qed
  have n2: "\<nexists>a r. ?u = a @ ''youtu.be/'' @ r"
  proof -
    have "\<not> str_includes ?u ''youtu.be/''" by code_simp
    then show ?thesis unfolding str_includes_iff .
  qed
  from extractYoutubeVideoId_shape [of ?u, THEN conjunct2, THEN conjunct2, THEN conjunct1,
      rule_format, OF conjI [OF n1 n2]]
  show "extractYoutubeVideoId ?u = Some []" .
next
  let ?w = "Node ''DIV'' [(''class'', ''wp-block-embed__wrapper'')]
          [Node ''#text'' [] [] ([LF] @ ''https://example.com/video'' @ [LF]) [] None]
          []
          (''<div class='' @ [DQ] @ ''wp-block-embed__wrapper'' @ [DQ] @ ''>'' @ [LF]
             @ ''https://example.com/video'' @ [LF] @ ''</div>'')
          None"
  have a: "wpEmbedYoutube_filter example_embed" by code_simp
  have b: "querySelector_class example_embed ''wp-block-embed__wrapper'' = Some ?w" by code_simp
  have c: "extractYoutubeVideoId (trim (textContent ?w)) = Some []" by code_simp
  from extractYoutubeVideoId_shape [where node = example_embed, THEN conjunct2, THEN conjunct2,
      THEN conjunct2, THEN conjunct1, rule_format, OF conjI [OF a conjI [OF b c]]]
  show "wpEmbedYoutube_replacement ''children'' example_embed = ''children''" .
qed

subsection \<open>Claim C5\<close>

text \<open>
  Claim C5, at two image tags on one line, the first with an extension that is not in the
  list: the lazy \<open>.*?\<close> is not confined to the attribute value, so the match that starts
  at the first tag runs on to the file name of the second one, and the replacement keeps
  only the start of the first tag and the end of the second. The \<open>bmp\<close> tag is not left
  unchanged: it is gone. The examples of the claim evaluate as it says: the lone tag with
  \<open>foo.png\<close> is rewritten, the lone tag with \<open>foo.bmp\<close> is kept, and nothing is rewritten
  when the flag is off.
\<close>

theorem image_rewrite_swallows_tag:
  "preprocess \<lparr>saveScrapedImages = True\<rparr> two_images
     = ''<img src='' @ [DQ] @ ''images/photo.png'' @ [DQ] @ ''>''
   \<and> preprocess \<lparr>saveScrapedImages = True\<rparr> (''<img src='' @ [DQ] @ ''foo.png'' @ [DQ] @ ''>'')
     = ''<img src='' @ [DQ] @ ''images/foo.png'' @ [DQ] @ ''>''
   \<and> preprocess \<lparr>saveScrapedImages = True\<rparr> (''<img src='' @ [DQ] @ ''foo.bmp'' @ [DQ] @ ''>'')
     = ''<img src='' @ [DQ] @ ''foo.bmp'' @ [DQ] @ ''>''
   \<and> preprocess \<lparr>saveScrapedImages = False\<rparr> (''<img src='' @ [DQ] @ ''foo.png'' @ [DQ] @ ''>'')
     = ''<img src='' @ [DQ] @ ''foo.png'' @ [DQ] @ ''>''"
  by code_simp

subsection \<open>Claim C6\<close>

text \<open>
  Claim C6. The list-marker clean-up is idempotent: cleaning up a string that has been
  cleaned up returns it unchanged.
\<close>

theorem postprocess_idempotent: "postprocess (postprocess s) = postprocess s"
  by (rule postprocess_twice)

subsection \<open>Claim C7\<close>

text \<open>
  Claim C7. For every string, wherever a marker (a hyphen, or digits followed by a full
  stop) is followed by one or more spaces, the clean-up puts the marker followed by exactly
  one space: around the occurrence the text before it and the text after the spaces are
  cleaned up on their own, and the cleaned text after the spaces still starts with no space.
  In particular \<open>-   item\<close> becomes \<open>- item\<close> and \<open>12.   item\<close> becomes \<open>12. item\<close>.
\<close>

theorem postprocess_collapses_marker_spaces:
  "(\<forall>a k b. take 1 b \<noteq> '' '' \<longrightarrow>
      postprocess (a @ ''-'' @ replicate (Suc k) CHR '' '' @ b)
        = postprocess a @ ''- '' @ postprocess b)
   \<and> (\<forall>a ds k b. ds \<noteq> [] \<and> list_all is_digit ds \<and> take 1 b \<noteq> '' '' \<longrightarrow>
      postprocess (a @ ds @ ''.'' @ replicate (Suc k) CHR '' '' @ b)
        = postprocess a @ ds @ ''. '' @ postprocess b)
   \<and> (\<forall>b. take 1 (postprocess b) = take 1 b)
   \<and> postprocess ''-   item'' = ''- item''
   \<and> postprocess ''12.   item'' = ''12. item''"
proof (intro conjI allI impI)
  fix a k b
  assume "take 1 b \<noteq> '' ''"
  then show "postprocess (a @ ''-'' @ replicate (Suc k) CHR '' '' @ b)
        = postprocess a @ ''- '' @ postprocess b"
    using postprocess_marker_context [of "''-''" b a k] by simp
next
  fix a ds k b
  assume h: "ds \<noteq> [] \<and> list_all is_digit ds \<and> take 1 b \<noteq> '' ''"
  then have "ds @ ''.'' = ''-'' \<or> (\<exists>es. es \<noteq> [] \<and> list_all is_digit es \<and> ds @ ''.'' = es @ ''.'')"
    by blast
  from postprocess_marker_context [OF this, of b a k] h
  show "postprocess (a @ ds @ ''.'' @ replicate (Suc k) CHR '' '' @ b)
        = postprocess a @ ds @ ''. '' @ postprocess b"
    by simp
next
  fix b
  show "take 1 (postprocess b) = take 1 b" by (rule postprocess_start)
next
  show "postprocess ''-   item'' = ''- item''" by code_simp
  show "postprocess ''12.   item'' = ''12. item''" by code_simp
qed

theorem postprocess_collapses_marker_spaces_witness:
  "postprocess (''see '' @ ''-'' @ replicate (Suc 2) CHR '' '' @ ''item'')
     = postprocess ''see '' @ ''- '' @ postprocess ''item''
   \<and> postprocess (''step '' @ ''12'' @ ''.'' @ replicate (Suc 2) CHR '' '' @ ''item'')
     = postprocess ''step '' @ ''12'' @ ''. '' @ postprocess ''item''"
proof (intro conjI)
  have b: "take 1 ''item'' \<noteq> '' ''" by simp
  from postprocess_collapses_marker_spaces [THEN conjunct1, rule_format, OF b]
  show "postprocess (''see '' @ ''-'' @ replicate (Suc 2) CHR '' '' @ ''item'')
     = postprocess ''see '' @ ''- '' @ postprocess ''item''" .
next
  have h: "''12'' \<noteq> [] \<and> list_all is_digit ''12'' \<and> take 1 ''item'' \<noteq> '' ''"
    by (simp add: is_digit_def)
  from postprocess_collapses_marker_spaces [THEN conjunct2, THEN conjunct1, rule_format, OF h]
  show "postprocess (''step '' @ ''12'' @ ''.'' @ replicate (Suc 2) CHR '' '' @ ''item'')
     = postprocess ''step '' @ ''12'' @ ''. '' @ postprocess ''item''" .
qed

subsection \<open>Claim C8\<close>

text \<open>
  Claim C8, at an iframe whose markup holds \<open>webkitallowfullscreen=""\<close> before
  \<open>allowfullscreen=""\<close>, and at a script whose markup holds \<open>data-async=""\<close> before
  \<open>async=""\<close>. The claim says that the rule emits the markup with \<open>allowfullscreen=""\<close>
  rewritten to \<open>allowfullscreen\<close>, and \<open>async=""\<close> to \<open>async\<close>. The rule replaces the first
  place where that text occurs, which here is the end of the longer attribute name: the
  iframe comes out with \<open>webkitallowfullscreen\<close> bare and \<open>allowfullscreen=""\<close> as it was, the
  script with \<open>data-async\<close> bare and \<open>async=""\<close> as it was. The line feeds around the markup
  are as the claim says, and so is the markup of an iframe and of a script that hold the
  attribute once (\<open>video_iframe\<close>, \<open>tweet_script\<close>).
\<close>

theorem iframe_attribute_not_rewritten:
  "iframe_filter vimeo_iframe
   \<and> getAttribute vimeo_iframe ''allowfullscreen'' = Some []
   \<and> iframe_replacement [] vimeo_iframe
     = [LF, LF] @ ''<iframe src='' @ [DQ] @ ''https://player.vimeo.com/video/1'' @ [DQ]
         @ '' webkitallowfullscreen mozallowfullscreen='' @ [DQ, DQ]
         @ '' allowfullscreen='' @ [DQ, DQ] @ ''></iframe>'' @ [LF, LF]
   \<and> str_includes (iframe_replacement [] vimeo_iframe) ('' allowfullscreen='' @ [DQ, DQ])
   \<and> script_filter data_async_script
   \<and> getAttribute data_async_script ''async'' = Some []
   \<and> script_replacement [] data_async_script
     = [LF, LF] @ ''<script data-async async='' @ [DQ, DQ] @ '' src='' @ [DQ]
         @ ''https://example.com/w.js'' @ [DQ] @ ''></script>'' @ [LF, LF]
   \<and> str_includes (script_replacement [] data_async_script) ('' async='' @ [DQ, DQ])
   \<and> iframe_filter video_iframe
   \<and> iframe_replacement [] video_iframe
     = [LF, LF] @ ''<iframe src='' @ [DQ] @ ''https://example.com/v'' @ [DQ]
         @ '' allowfullscreen></iframe>'' @ [LF, LF]
   \<and> script_filter tweet_script
   \<and> script_replacement [] tweet_script
     = [LF] @ ''<script async src='' @ [DQ] @ ''https://platform.twitter.com/widgets.js'' @ [DQ]
         @ ''></script>'' @ [LF, LF]"
  by code_simp

subsection \<open>Claim C9\<close>

text \<open>
  Claim C9. Video identifier extraction never raises: for every string the body of the
  \<open>try\<close> block returns a string (never \<open>undefined\<close>, never a TypeError), so the
  \<open>catch\<close> branch is not reached and the function returns that string. The function is
  total by construction (every recursion above has a termination proof). When the marker
  ends the address the identifier is empty.
\<close>

theorem extractYoutubeVideoId_total:
  "(\<exists>v. extractYoutubeVideoId_try url = Inr (Some v) \<and> extractYoutubeVideoId url = Some v)
   \<and> extractYoutubeVideoId_try ''https://www.youtube.com/watch?v='' = Inr (Some [])
   \<and> extractYoutubeVideoId_try ''https://youtu.be/'' = Inr (Some [])"
proof (intro conjI)
  from extract_never_raises [of url] obtain v where "extractYoutubeVideoId_try url = Inr (Some v)" ..
  then show "\<exists>v. extractYoutubeVideoId_try url = Inr (Some v) \<and> extractYoutubeVideoId url = Some v"
    by (simp add: extractYoutubeVideoId_def)
  show "extractYoutubeVideoId_try ''https://www.youtube.com/watch?v='' = Inr (Some [])"
    by code_simp
  show "extractYoutubeVideoId_try ''https://youtu.be/'' = Inr (Some [])"
    by code_simp
qed

subsection \<open>Claim C10\<close>

text \<open>
  Claim C10. The clean-up does not look at the position: after any text whatever, a hyphen
  or digits with a full stop followed by two or more spaces is rewritten, and the result
  differs from the input. So it reaches the text of a fenced code block that the \<open>pre\<close>
  rule emitted, and prose in the middle of a line.
\<close>

theorem postprocess_position_insensitive:
  "(\<forall>a k b. take 1 b \<noteq> '' '' \<longrightarrow>
      postprocess (a @ ''-'' @ replicate (Suc (Suc k)) CHR '' '' @ b)
        = postprocess a @ ''- '' @ postprocess b
      \<and> postprocess (a @ ''-'' @ replicate (Suc (Suc k)) CHR '' '' @ b)
        \<noteq> a @ ''-'' @ replicate (Suc (Suc k)) CHR '' '' @ b)
   \<and> (\<forall>a ds k b. ds \<noteq> [] \<and> list_all is_digit ds \<and> take 1 b \<noteq> '' '' \<longrightarrow>
      postprocess (a @ ds @ ''.'' @ replicate (Suc (Suc k)) CHR '' '' @ b)
        = postprocess a @ ds @ ''. '' @ postprocess b
      \<and> postprocess (a @ ds @ ''.'' @ replicate (Suc (Suc k)) CHR '' '' @ b)
        \<noteq> a @ ds @ ''.'' @ replicate (Suc (Suc k)) CHR '' '' @ b)
   \<and> pre_filter code_sample
   \<and> pre_replacement [] code_sample = [LF, LF] @ ''```'' @ [LF] @ ''x = a -  b'' @ [LF] @ ''```'' @ [LF, LF]
   \<and> postprocess (pre_replacement [] code_sample)
       = [LF, LF] @ ''```'' @ [LF] @ ''x = a - b'' @ [LF] @ ''```'' @ [LF, LF]
   \<and> postprocess ''wait -  what'' = ''wait - what''"
proof -
  note general = postprocess_changes
  show ?thesis
  proof (intro conjI allI impI)
    fix a k b
    assume b: "take 1 b \<noteq> '' ''"
    have m: "''-'' = ''-'' \<or> (\<exists>ds. ds \<noteq> [] \<and> list_all is_digit ds \<and> ''-'' = ds @ ''.'')"
      by simp
    show "postprocess (a @ ''-'' @ replicate (Suc (Suc k)) CHR '' '' @ b)
        = postprocess a @ ''- '' @ postprocess b"
      using general [OF m b, of a k, THEN conjunct1] by simp
    show "postprocess (a @ ''-'' @ replicate (Suc (Suc k)) CHR '' '' @ b)
        \<noteq> a @ ''-'' @ replicate (Suc (Suc k)) CHR '' '' @ b"
      using general [OF m b, of a k, THEN conjunct2] by simp
  next
    fix a ds k b
    assume h: "ds \<noteq> [] \<and> list_all is_digit ds \<and> take 1 b \<noteq> '' ''"
    then have m: "ds @ ''.'' = ''-'' \<or> (\<exists>es. es \<noteq> [] \<and> list_all is_digit es \<and> ds @ ''.'' = es @ ''.'')"
      by blast
    from h have b: "take 1 b \<noteq> '' ''" by simp
    show "postprocess (a @ ds @ ''.'' @ replicate (Suc (Suc k)) CHR '' '' @ b)
        = postprocess a @ ds @ ''. '' @ postprocess b"
      using general [OF m b, of a k, THEN conjunct1] by simp
    show "postprocess (a @ ds @ ''.'' @ replicate (Suc (Suc k)) CHR '' '' @ b)
        \<noteq> a @ ds @ ''.'' @ replicate (Suc (Suc k)) CHR '' '' @ b"
      using general [OF m b, of a k, THEN conjunct2] by simp
  next
    show "pre_filter code_sample" by code_simp
    show "pre_replacement [] code_sample
            = [LF, LF] @ ''```'' @ [LF] @ ''x = a -  b'' @ [LF] @ ''```'' @ [LF, LF]"
      by code_simp
    show "postprocess (pre_replacement [] code_sample)
            = [LF, LF] @ ''```'' @ [LF] @ ''x = a - b'' @ [LF] @ ''```'' @ [LF, LF]"
      by code_simp
    show "postprocess ''wait -  what'' = ''wait - what''" by code_simp
  qed
qed

theorem postprocess_position_insensitive_witness:
  "postprocess (([LF, LF] @ ''```'' @ [LF] @ ''x = a '') @ ''-'' @ replicate (Suc (Suc 0)) CHR '' ''
        @ (''b'' @ [LF] @ ''```'' @ [LF, LF]))
     \<noteq> ([LF, LF] @ ''```'' @ [LF] @ ''x = a '') @ ''-'' @ replicate (Suc (Suc 0)) CHR '' ''
        @ (''b'' @ [LF] @ ''```'' @ [LF, LF])
   \<and> postprocess (''version '' @ ''2'' @ ''.'' @ replicate (Suc (Suc 0)) CHR '' '' @ ''is out'')
     \<noteq> ''version '' @ ''2'' @ ''.'' @ replicate (Suc (Suc 0)) CHR '' '' @ ''is out''"
proof (intro conjI)
  have b: "take 1 (''b'' @ [LF] @ ''```'' @ [LF, LF]) \<noteq> '' ''" by simp
  from postprocess_position_insensitive [THEN conjunct1, rule_format, OF b, THEN conjunct2]
  show "postprocess (([LF, LF] @ ''```'' @ [LF] @ ''x = a '') @ ''-'' @ replicate (Suc (Suc 0)) CHR '' ''
        @ (''b'' @ [LF] @ ''```'' @ [LF, LF]))
     \<noteq> ([LF, LF] @ ''```'' @ [LF] @ ''x = a '') @ ''-'' @ replicate (Suc (Suc 0)) CHR '' ''
        @ (''b'' @ [LF] @ ''```'' @ [LF, LF])" .
next
  have h: "''2'' \<noteq> [] \<and> list_all is_digit ''2'' \<and> take 1 ''is out'' \<noteq> '' ''"
    by (simp add: is_digit_def)
  from postprocess_position_insensitive [THEN conjunct2, THEN conjunct1, rule_format, OF h,
      THEN conjunct2]
  show "postprocess (''version '' @ ''2'' @ ''.'' @ replicate (Suc (Suc 0)) CHR '' '' @ ''is out'')
     \<noteq> ''version '' @ ''2'' @ ''.'' @ replicate (Suc (Suc 0)) CHR '' '' @ ''is out''" .
qed

end
